theory Spec2Isabelle
  imports Complex_Main "HOL-Library.AList"
begin

chapter \<open>CostDataRetriever: the Lambda handler and its resolver\<close>

text \<open>
  A shallow embedding of \<^verbatim>\<open>CostDataRetriever/lambda_function.py\<close>: the resolver
  \<^verbatim>\<open>get_ec2_cpu_utilization\<close> and the adapter \<^verbatim>\<open>lambda_handler\<close>, together with
  the parts of the Python runtime they use.

  \<^item> Python values are the datatype \<open>pyval\<close>: the handler receives a decoded JSON document and
    returns one, and the two boto3 responses are dictionaries of lists of dictionaries.
  \<^item> A Python \<^verbatim>\<open>str\<close> is a list of code points (\<open>pystr\<close>); \<open>ustr\<close> embeds an ASCII literal.
  \<^item> A \<^verbatim>\<open>float\<close> is a rational number, an infinity or NaN (\<open>pyfloat\<close>): sums, the
    division and \<^verbatim>\<open>round\<close> are exact on finite values, so the rounding error of IEEE
    arithmetic and overflow are outside the model.
  \<^item> An exception is a value of \<open>exn\<close>; a computation that may raise returns \<open>exn + 'a\<close>.
    Every exception of the model is a subclass of \<^verbatim>\<open>Exception\<close>, which is what the resolver's
    \<^verbatim>\<open>except Exception\<close> catches.
  \<^item> The two boto3 clients and the clock are the fields of the record \<open>env\<close>; the calls made
    and the line printed are returned as a list of \<open>effect\<close>s, in program order. A client
    answers with a value or raises; \<open>ServiceError\<close> stands for whatever exception class it
    raises, with the text \<^verbatim>\<open>str(e)\<close>.
  \<^item> The unused \<^verbatim>\<open>context\<close> argument of the handler is left out. The messages of the
    built-in exceptions are those of CPython 3.11. The interpreter's resource limits (recursion
    depth, digits of an integer literal, memory) are not modelled.
\<close>

section \<open>Python values\<close>

type_synonym pystr = "nat list"

definition ustr :: "string \<Rightarrow> pystr" where
  "ustr s = map of_char s"

text \<open>
  Characters that a string literal of the logic cannot hold, and those the codec tests, are
  written as code points:
  8, 9, 10, 12, 13 are backspace, tab, line feed, form feed and carriage return; 32 the space;
  34 the double quote and 39 the single quote; 43 \<open>+\<close>, 44 the comma, 45 \<open>-\<close>, 46 the full
  stop, 47 the slash; 48 to 57 the digits; 58 the colon; 65 to 70 and 97 to 102 the letters of
  a hexadecimal digit; 69 and 101 the \<open>E\<close> and \<open>e\<close> of an exponent; 91 and 93 the square
  brackets; 92 the backslash; 98, 102, 110, 114, 116, 117 and 120 the letters \<open>b\<close>, \<open>f\<close>,
  \<open>n\<close>, \<open>r\<close>, \<open>t\<close>, \<open>u\<close> and \<open>x\<close> of an escape; 123 and 125 the braces; 127 the delete
  character; 55296 to 56319 (\<open>0xD800\<close> to \<open>0xDBFF\<close>) the high and 56320 to 57343
  (\<open>0xDC00\<close> to \<open>0xDFFF\<close>) the low surrogates; 65279 the byte order mark; 65536 is
  \<open>0x10000\<close> and 1114112 is \<open>0x110000\<close>, one more than the last code point.
\<close>

datatype pyfloat = Finite rat | NaN | PosInf | NegInf

datatype pyval =
    PNone
  | PBool bool
  | PInt int
  | PFloat pyfloat
  | PStr pystr
  | PList "pyval list"
  | PDict "(pystr \<times> pyval) list"

datatype exn =
    KeyError pyval
  | IndexError pystr
  | TypeError pystr
  | AttributeError pystr
  | ZeroDivisionError pystr
  | JSONDecodeError pystr
  | ServiceError pystr
  | Exception pystr

section \<open>Text of numbers and strings\<close>

text \<open>
  \<open>digits10\<close> and \<open>int_repr\<close> are \<^verbatim>\<open>int.__repr__\<close>. \<open>float_repr\<close> stands for
  \<^verbatim>\<open>float.__repr__\<close> on a finite value (\<open>pyfloat_repr\<close> adds \<^verbatim>\<open>nan\<close>, \<^verbatim>\<open>inf\<close> and
  \<^verbatim>\<open>-inf\<close>): it writes the exact decimal expansion in positional notation; the
  fuel of \<open>frac_digits\<close> is the denominator, which is more than the number of digits of any
  terminating expansion. CPython prints the shortest decimal that reads back as the same
  double and switches to exponent notation from \<open>1e16\<close> on; both differences vanish on the
  two-decimal values the resolver prints for a utilisation percentage.
  \<open>str_repr\<close> is \<^verbatim>\<open>str.__repr__\<close> with every code point from 128 on taken as printable.
\<close>

function digits10 :: "nat \<Rightarrow> pystr" where
  "digits10 n = (if n < 10 then [48 + n] else digits10 (n div 10) @ [48 + n mod 10])"
  by pat_completeness auto
termination
  by (relation "measure id") auto

definition int_repr :: "int \<Rightarrow> pystr" where
  "int_repr i = (if i < 0 then 45 # digits10 (nat (- i)) else digits10 (nat i))"

fun frac_digits :: "nat \<Rightarrow> rat \<Rightarrow> pystr" where
  "frac_digits 0 f = []"
| "frac_digits (Suc k) f =
     (if f = 0 then []
      else (let d = \<lfloor>f * 10\<rfloor> in (48 + nat d) # frac_digits k (f * 10 - of_int d)))"

definition float_repr :: "rat \<Rightarrow> pystr" where
  "float_repr q =
     (let a = \<bar>q\<bar>; ip = \<lfloor>a\<rfloor>; f = a - of_int ip;
          fd = frac_digits (nat (snd (quotient_of q))) f
      in (if q < 0 then [45] else []) @ digits10 (nat ip) @ [46] @ (if fd = [] then [48] else fd))"

definition hexdigit :: "nat \<Rightarrow> nat" where
  "hexdigit d = (if d < 10 then 48 + d else 87 + d)"

definition repr_char :: "nat \<Rightarrow> nat \<Rightarrow> pystr" where
  "repr_char q c =
     (if c = q \<or> c = 92 then [92, c]
      else if c = 9 then [92, 116]
      else if c = 10 then [92, 110]
      else if c = 13 then [92, 114]
      else if c < 32 \<or> c = 127 then [92, 120, hexdigit (c div 16), hexdigit (c mod 16)]
      else [c])"

definition str_repr :: "pystr \<Rightarrow> pystr" where
  "str_repr s =
     (let q = (if 39 \<in> set s \<and> 34 \<notin> set s then 34 else 39)
      in [q] @ concat (map (repr_char q) s) @ [q])"

fun join :: "pystr \<Rightarrow> pystr list \<Rightarrow> pystr" where
  "join sep [] = []"
| "join sep [x] = x"
| "join sep (x # y # ys) = x @ sep @ join sep (y # ys)"

fun pyfloat_repr :: "pyfloat \<Rightarrow> pystr" where
  "pyfloat_repr (Finite q) = float_repr q"
| "pyfloat_repr NaN = ustr ''nan''"
| "pyfloat_repr PosInf = ustr ''inf''"
| "pyfloat_repr NegInf = ustr ''-inf''"

fun py_repr :: "pyval \<Rightarrow> pystr" where
  "py_repr PNone = ustr ''None''"
| "py_repr (PBool b) = (if b then ustr ''True'' else ustr ''False'')"
| "py_repr (PInt i) = int_repr i"
| "py_repr (PFloat x) = pyfloat_repr x"
| "py_repr (PStr s) = str_repr s"
| "py_repr (PList xs) = [91] @ join (ustr '', '') (map py_repr xs) @ [93]"
| "py_repr (PDict kvs) =
     [123] @ join (ustr '', '') (map (\<lambda>(k, v). str_repr k @ ustr '': '' @ py_repr v) kvs) @ [125]"

definition py_str :: "pyval \<Rightarrow> pystr" where
  "py_str v = (case v of PStr s \<Rightarrow> s | _ \<Rightarrow> py_repr v)"


section \<open>The JSON codec of the standard library\<close>

subsection \<open>json.dumps\<close>

text \<open>
  \<^verbatim>\<open>json.dumps\<close> with its default arguments: separators \<^verbatim>\<open>", "\<close> and \<^verbatim>\<open>": "\<close>, and
  \<^verbatim>\<open>ensure_ascii=True\<close>, so every code point outside the printable ASCII range is written as
  a \<^verbatim>\<open>\uXXXX\<close> escape, and one above \<open>0xFFFF\<close> as a surrogate pair of two escapes.
  With \<^verbatim>\<open>allow_nan=True\<close> a float that is not finite is written as \<^verbatim>\<open>NaN\<close>,
  \<^verbatim>\<open>Infinity\<close> or \<^verbatim>\<open>-Infinity\<close> (\<open>floatstr\<close>).
\<close>

definition hex4 :: "nat \<Rightarrow> pystr" where
  "hex4 n = [hexdigit (n div 4096 mod 16), hexdigit (n div 256 mod 16),
             hexdigit (n div 16 mod 16), hexdigit (n mod 16)]"

definition json_escape_char :: "nat \<Rightarrow> pystr" where
  "json_escape_char c =
     (if c = 34 then [92, 34]
      else if c = 92 then [92, 92]
      else if c = 10 then [92, 110]
      else if c = 13 then [92, 114]
      else if c = 9 then [92, 116]
      else if c = 8 then [92, 98]
      else if c = 12 then [92, 102]
      else if 32 \<le> c \<and> c \<le> 126 then [c]
      else if c < 65536 then [92, 117] @ hex4 c
      else (let n = c - 65536
            in [92, 117] @ hex4 (55296 + n div 1024 mod 1024) @
               [92, 117] @ hex4 (56320 + n mod 1024)))"

definition encode_string :: "pystr \<Rightarrow> pystr" where
  "encode_string s = [34] @ concat (map json_escape_char s) @ [34]"

fun floatstr :: "pyfloat \<Rightarrow> pystr" where
  "floatstr (Finite q) = float_repr q"
| "floatstr NaN = ustr ''NaN''"
| "floatstr PosInf = ustr ''Infinity''"
| "floatstr NegInf = ustr ''-Infinity''"

fun encode :: "pyval \<Rightarrow> pystr" where
  "encode PNone = ustr ''null''"
| "encode (PBool b) = (if b then ustr ''true'' else ustr ''false'')"
| "encode (PInt i) = int_repr i"
| "encode (PFloat x) = floatstr x"
| "encode (PStr s) = encode_string s"
| "encode (PList xs) = [91] @ join (ustr '', '') (map encode xs) @ [93]"
| "encode (PDict kvs) =
     [123] @ join (ustr '', '') (map (\<lambda>(k, v). encode_string k @ ustr '': '' @ encode v) kvs) @ [125]"

definition json_dumps :: "pyval \<Rightarrow> pystr" where
  "json_dumps v = encode v"

subsection \<open>json.loads\<close>

text \<open>
  \<^verbatim>\<open>json.loads\<close> on a \<^verbatim>\<open>str\<close>, after CPython's scanner: \<open>match_number\<close> is the regular
  expression \<^verbatim>\<open>(-?(?:0|[1-9][0-9]*))(\.[0-9]+)?([eE][-+]?[0-9]+)?\<close>, \<open>scanstring\<close> the
  strict string scanner (an escaped high surrogate followed by an escaped low surrogate is
  one code point), \<open>parse_array\<close> and \<open>parse_object\<close> the iterations of \<^verbatim>\<open>JSONArray\<close> and
  \<^verbatim>\<open>JSONObject\<close>, called after the opening bracket and the optional white space.
  A \<^verbatim>\<open>JSONDecodeError\<close> carries its message without the position. The literals
  \<^verbatim>\<open>NaN\<close>, \<^verbatim>\<open>Infinity\<close> and \<^verbatim>\<open>-Infinity\<close> are accepted beyond the JSON grammar, after
  a number has been tried.

  The tests \<open>length r < length s\<close> in the two iterations always succeed, since a value is
  at least one character long (\<open>parse_value_consumes\<close>), and both satisfy the same
  equations without them (\<open>parse_array_unguarded\<close>, \<open>parse_object_unguarded\<close>); they only
  make the recursion visibly terminating.
\<close>

definition is_ws :: "nat \<Rightarrow> bool" where
  "is_ws c \<longleftrightarrow> c = 32 \<or> c = 9 \<or> c = 10 \<or> c = 13"

definition skip_ws :: "pystr \<Rightarrow> pystr" where
  "skip_ws s = dropWhile is_ws s"

definition is_digit :: "nat \<Rightarrow> bool" where
  "is_digit c \<longleftrightarrow> 48 \<le> c \<and> c \<le> 57"

definition nat_of_digits :: "pystr \<Rightarrow> nat" where
  "nat_of_digits ds = foldl (\<lambda>a d. 10 * a + (d - 48)) 0 ds"

definition match_fraction :: "pystr \<Rightarrow> pystr option \<times> pystr" where
  "match_fraction r =
     (case r of
        c # d # t \<Rightarrow>
          if c = 46 \<and> is_digit d
          then (Some (takeWhile is_digit (d # t)), dropWhile is_digit (d # t))
          else (None, r)
      | _ \<Rightarrow> (None, r))"

definition match_exponent :: "pystr \<Rightarrow> (bool \<times> pystr) option \<times> pystr" where
  "match_exponent r =
     (case r of
        [] \<Rightarrow> (None, r)
      | e # t \<Rightarrow>
          if e = 101 \<or> e = 69 then
            (let (neg, t1) = (case t of
                                [] \<Rightarrow> (False, t)
                              | sg # u \<Rightarrow> if sg = 45 then (True, u)
                                          else if sg = 43 then (False, u)
                                          else (False, t))
             in case t1 of
                  [] \<Rightarrow> (None, r)
                | d # _ \<Rightarrow> if is_digit d
                           then (Some (neg, takeWhile is_digit t1), dropWhile is_digit t1)
                           else (None, r))
          else (None, r))"

definition number_value :: "bool \<Rightarrow> pystr \<Rightarrow> pystr option \<Rightarrow> (bool \<times> pystr) option \<Rightarrow> pyval" where
  "number_value neg ip fr ex =
     (if fr = None \<and> ex = None
      then PInt (if neg then - int (nat_of_digits ip) else int (nat_of_digits ip))
      else (let fds = (case fr of None \<Rightarrow> [] | Some ds \<Rightarrow> ds);
                m = (of_nat (nat_of_digits ip) :: rat) + of_nat (nat_of_digits fds) / 10 ^ length fds;
                x = (case ex of
                       None \<Rightarrow> m
                     | Some (eneg, eds) \<Rightarrow>
                         if eneg then m / 10 ^ nat_of_digits eds else m * 10 ^ nat_of_digits eds)
            in PFloat (Finite (if neg then - x else x))))"

definition match_number :: "pystr \<Rightarrow> (pyval \<times> pystr) option" where
  "match_number s =
     (let (neg, s1) = (case s of [] \<Rightarrow> (False, s) | c # t \<Rightarrow> if c = 45 then (True, t) else (False, s))
      in case s1 of
           [] \<Rightarrow> None
         | c # t \<Rightarrow>
             if is_digit c then
               (let (ip, r) = (if c = 48 then ([c], t)
                               else (takeWhile is_digit s1, dropWhile is_digit s1));
                    (fr, r1) = match_fraction r;
                    (ex, r2) = match_exponent r1
                in Some (number_value neg ip fr ex, r2))
             else None)"

definition hexval :: "nat \<Rightarrow> nat option" where
  "hexval c =
     (if 48 \<le> c \<and> c \<le> 57 then Some (c - 48)
      else if 97 \<le> c \<and> c \<le> 102 then Some (c - 87)
      else if 65 \<le> c \<and> c \<le> 70 then Some (c - 55)
      else None)"

definition parse_hex4 :: "pystr \<Rightarrow> (nat \<times> pystr) option" where
  "parse_hex4 s =
     (case s of
        a # b # c # d # r \<Rightarrow>
          (case (hexval a, hexval b, hexval c, hexval d) of
             (Some x3, Some x2, Some x1, Some x0) \<Rightarrow> Some (((x3 * 16 + x2) * 16 + x1) * 16 + x0, r)
           | _ \<Rightarrow> None)
      | _ \<Rightarrow> None)"

definition unescape :: "nat \<Rightarrow> nat option" where
  "unescape e =
     (if e = 34 then Some 34
      else if e = 92 then Some 92
      else if e = 47 then Some 47
      else if e = 98 then Some 8
      else if e = 102 then Some 12
      else if e = 110 then Some 10
      else if e = 114 then Some 13
      else if e = 116 then Some 9
      else None)"

definition is_high_surrogate :: "nat \<Rightarrow> bool" where
  "is_high_surrogate u \<longleftrightarrow> 55296 \<le> u \<and> u \<le> 56319"

definition is_low_surrogate :: "nat \<Rightarrow> bool" where
  "is_low_surrogate u \<longleftrightarrow> 56320 \<le> u \<and> u \<le> 57343"

definition join_surrogates :: "nat \<Rightarrow> nat \<Rightarrow> nat" where
  "join_surrogates hi lo = 65536 + (hi - 55296) * 1024 + (lo - 56320)"

definition cons_char :: "nat \<Rightarrow> exn + (pystr \<times> pystr) \<Rightarrow> exn + (pystr \<times> pystr)" where
  "cons_char c res = (case res of Inl e \<Rightarrow> Inl e | Inr (str, r) \<Rightarrow> Inr (c # str, r))"

definition invalid_uXXXX :: exn where
  "invalid_uXXXX = JSONDecodeError (ustr ''Invalid '' @ [92] @ ustr ''uXXXX escape'')"

definition unterminated :: exn where
  "unterminated = JSONDecodeError (ustr ''Unterminated string starting at'')"

definition decode_surrogate :: "nat \<Rightarrow> pystr \<Rightarrow> exn + (nat \<times> pystr)" where
  "decode_surrogate u r =
     (case r of
        b # x # r1 \<Rightarrow>
          if b = 92 \<and> x = 117 then
            (case parse_hex4 r1 of
               None \<Rightarrow> Inl invalid_uXXXX
             | Some (u2, r2) \<Rightarrow>
                 if is_low_surrogate u2 then Inr (join_surrogates u u2, r2) else Inr (u, r))
          else Inr (u, r)
      | _ \<Rightarrow> Inr (u, r))"

definition decode_escape :: "pystr \<Rightarrow> exn + (nat \<times> pystr)" where
  "decode_escape cs =
     (case cs of
        [] \<Rightarrow> Inl unterminated
      | e # es \<Rightarrow>
          if e = 117 then
            (case parse_hex4 es of
               None \<Rightarrow> Inl invalid_uXXXX
             | Some (u, r) \<Rightarrow> if is_high_surrogate u then decode_surrogate u r else Inr (u, r))
          else
            (case unescape e of
               None \<Rightarrow> Inl (JSONDecodeError (ustr ''Invalid '' @ [92] @ ustr ''escape''))
             | Some ch \<Rightarrow> Inr (ch, es)))"

function scanstring :: "pystr \<Rightarrow> exn + (pystr \<times> pystr)" where
  "scanstring [] = Inl unterminated"
| "scanstring (c # cs) =
     (if c = 34 then Inr ([], cs)
      else if c = 92 then
        (case decode_escape cs of
           Inl e \<Rightarrow> Inl e
         | Inr (ch, r) \<Rightarrow> cons_char ch (scanstring r))
      else if c < 32 then Inl (JSONDecodeError (ustr ''Invalid control character at''))
      else cons_char c (scanstring cs))"
  by pat_completeness auto
termination
proof (relation "measure length")
  fix c :: nat and cs :: pystr and x :: "nat \<times> pystr" and ch :: nat and r :: pystr
  assume d: "decode_escape cs = Inr x" and x: "(ch, r) = x"
  have h: "\<And>s u t. parse_hex4 s = Some (u, t) \<Longrightarrow> length t < length s"
    by (auto simp: parse_hex4_def split: list.splits option.splits)
  have s: "\<And>u t v w. decode_surrogate u t = Inr (v, w) \<Longrightarrow> length w \<le> length t"
    by (auto simp: decode_surrogate_def split: list.splits option.splits if_splits dest!: h)
  from d x have "length r \<le> length cs"
    by (auto simp: decode_escape_def split: list.splits option.splits if_splits
             dest!: h s)
  then show "(r, c # cs) \<in> measure length" by simp
qed simp_all


definition starts_with :: "pystr \<Rightarrow> pystr \<Rightarrow> bool" where
  "starts_with p s \<longleftrightarrow> take (length p) s = p"

definition expecting_value :: exn where
  "expecting_value = JSONDecodeError (ustr ''Expecting value'')"

definition expecting_comma :: exn where
  "expecting_comma = JSONDecodeError (ustr ''Expecting '' @ [39, 44, 39] @ ustr '' delimiter'')"

definition expecting_colon :: exn where
  "expecting_colon = JSONDecodeError (ustr ''Expecting '' @ [39, 58, 39] @ ustr '' delimiter'')"

definition expecting_name :: exn where
  "expecting_name = JSONDecodeError (ustr ''Expecting property name enclosed in double quotes'')"

definition dict_of_pairs :: "(pystr \<times> pyval) list \<Rightarrow> (pystr \<times> pyval) list" where
  "dict_of_pairs ps = foldl (\<lambda>d (k, v). AList.update k v d) [] ps"

definition parse_measure :: "pystr + (pystr \<times> pyval list) + (pystr \<times> (pystr \<times> pyval) list) \<Rightarrow> nat" where
  "parse_measure x =
     (case x of
        Inl s \<Rightarrow> 2 * length s
      | Inr (Inl (s, acc)) \<Rightarrow> 2 * length s + 1
      | Inr (Inr (s, acc)) \<Rightarrow> 2 * length s + 1)"

function parse_value :: "pystr \<Rightarrow> exn + (pyval \<times> pystr)"
  and parse_array :: "pystr \<Rightarrow> pyval list \<Rightarrow> exn + (pyval \<times> pystr)"
  and parse_object :: "pystr \<Rightarrow> (pystr \<times> pyval) list \<Rightarrow> exn + (pyval \<times> pystr)"
where
  "parse_value s =
     (case s of
        [] \<Rightarrow> Inl expecting_value
      | c # t \<Rightarrow>
          if c = 34 then
            (case scanstring t of Inl e \<Rightarrow> Inl e | Inr (str, r) \<Rightarrow> Inr (PStr str, r))
          else if c = 123 then
            (case skip_ws t of
               [] \<Rightarrow> Inl expecting_name
             | d # r \<Rightarrow> if d = 125 then Inr (PDict [], r)
                        else if d = 34 then parse_object r []
                        else Inl expecting_name)
          else if c = 91 then
            (case skip_ws t of
               [] \<Rightarrow> Inl expecting_value
             | d # r \<Rightarrow> if d = 93 then Inr (PList [], r) else parse_array (d # r) [])
          else if starts_with (ustr ''null'') s then Inr (PNone, drop 4 s)
          else if starts_with (ustr ''true'') s then Inr (PBool True, drop 4 s)
          else if starts_with (ustr ''false'') s then Inr (PBool False, drop 5 s)
          else (case match_number s of
                  Some (v, r) \<Rightarrow> Inr (v, r)
                | None \<Rightarrow>
                    if starts_with (ustr ''NaN'') s then Inr (PFloat NaN, drop 3 s)
                    else if starts_with (ustr ''Infinity'') s then Inr (PFloat PosInf, drop 8 s)
                    else if starts_with (ustr ''-Infinity'') s then Inr (PFloat NegInf, drop 9 s)
                    else Inl expecting_value))"
| "parse_array s acc =
     (case parse_value s of
        Inl e \<Rightarrow> Inl e
      | Inr (v, r) \<Rightarrow>
          if length r < length s then
            (case skip_ws r of
               [] \<Rightarrow> Inl expecting_comma
             | d # r1 \<Rightarrow> if d = 93 then Inr (PList (acc @ [v]), r1)
                         else if d = 44 then parse_array (skip_ws r1) (acc @ [v])
                         else Inl expecting_comma)
          else Inl expecting_value)"
| "parse_object s acc =
     (case scanstring s of
        Inl e \<Rightarrow> Inl e
      | Inr (key, r) \<Rightarrow>
          (case skip_ws r of
             [] \<Rightarrow> Inl expecting_colon
           | d # r1 \<Rightarrow>
               if d = 58 \<and> length r1 < length s then
                 (case parse_value (skip_ws r1) of
                    Inl e \<Rightarrow> Inl e
                  | Inr (v, r2) \<Rightarrow>
                      if length r2 < length s then
                        (case skip_ws r2 of
                           [] \<Rightarrow> Inl expecting_comma
                         | d2 # r3 \<Rightarrow>
                             if d2 = 125 then Inr (PDict (dict_of_pairs (acc @ [(key, v)])), r3)
                             else if d2 = 44 then
                               (case skip_ws r3 of
                                  [] \<Rightarrow> Inl expecting_name
                                | d3 # r4 \<Rightarrow>
                                    if d3 = 34 then parse_object r4 (acc @ [(key, v)])
                                    else Inl expecting_name)
                             else Inl expecting_comma)
                      else Inl expecting_value)
               else Inl expecting_colon))"
  by pat_completeness auto
termination
proof -
  have sk: "length r < length s" if "skip_ws s = d # r" for s d r
  proof -
    have "length (d # r) \<le> length s"
      using that length_dropWhile_le [of is_ws s] by (simp add: skip_ws_def)
    then show ?thesis by simp
  qed
  have sk': "length (skip_ws s) \<le> length s" for s
    unfolding skip_ws_def by (rule length_dropWhile_le)
  show ?thesis
    apply (relation "measure parse_measure")
         apply simp
    subgoal for s c t d r using sk [of t d r] by (simp add: parse_measure_def)
    subgoal for s c t d r using sk [of t d r] by (simp add: parse_measure_def)
    subgoal for s acc by (simp add: parse_measure_def)
    subgoal for s acc x v r d r1
      using sk [of r d r1] sk' [of r1] by (simp add: parse_measure_def)
    subgoal for s acc x key r d r1
      using sk' [of r1] by (simp add: parse_measure_def)
    subgoal for s acc x key r d r1 y v r2 d2 r3 d3 r4
      using sk [of r2 d2 r3] sk [of r3 d3 r4] by (simp add: parse_measure_def)
    done
qed


declare parse_value.simps [simp del] parse_array.simps [simp del] parse_object.simps [simp del]

definition json_loads :: "pystr \<Rightarrow> exn + pyval" where
  "json_loads s =
     (if starts_with [65279] s
      then Inl (JSONDecodeError (ustr ''Unexpected UTF-8 BOM (decode using utf-8-sig)''))
      else (case parse_value (skip_ws s) of
              Inl e \<Rightarrow> Inl e
            | Inr (v, r) \<Rightarrow>
                if skip_ws r = [] then Inr v else Inl (JSONDecodeError (ustr ''Extra data''))))"


section \<open>Python operations used by the handler\<close>

text \<open>
  Subscription with a string key (\<open>getitem_str\<close>) and with the index \<open>0\<close>
  (\<open>getitem_first\<close>), \<^verbatim>\<open>dict.get\<close>, truth value, iteration, \<^verbatim>\<open>len\<close>, \<open>+\<close> with a
  number on the left (the running total of \<^verbatim>\<open>sum\<close>), true division by a length, and
  \<^verbatim>\<open>round(x, 2)\<close>, which rounds the exact value half to even.
\<close>

fun type_name :: "pyval \<Rightarrow> pystr" where
  "type_name PNone = ustr ''NoneType''"
| "type_name (PBool b) = ustr ''bool''"
| "type_name (PInt i) = ustr ''int''"
| "type_name (PFloat q) = ustr ''float''"
| "type_name (PStr s) = ustr ''str''"
| "type_name (PList xs) = ustr ''list''"
| "type_name (PDict kvs) = ustr ''dict''"

definition not_subscriptable :: "pyval \<Rightarrow> exn" where
  "not_subscriptable v = TypeError ([39] @ type_name v @ [39] @ ustr '' object is not subscriptable'')"

definition getitem_str :: "pyval \<Rightarrow> pystr \<Rightarrow> exn + pyval" where
  "getitem_str obj key =
     (case obj of
        PDict kvs \<Rightarrow> (case map_of kvs key of None \<Rightarrow> Inl (KeyError (PStr key)) | Some v \<Rightarrow> Inr v)
      | PList xs \<Rightarrow> Inl (TypeError (ustr ''list indices must be integers or slices, not str''))
      | PStr s \<Rightarrow> Inl (TypeError (ustr ''string indices must be integers, not '' @ [39] @ ustr ''str'' @ [39]))
      | _ \<Rightarrow> Inl (not_subscriptable obj))"

definition getitem_first :: "pyval \<Rightarrow> exn + pyval" where
  "getitem_first obj =
     (case obj of
        PList xs \<Rightarrow> (case xs of [] \<Rightarrow> Inl (IndexError (ustr ''list index out of range'')) | x # _ \<Rightarrow> Inr x)
      | PStr s \<Rightarrow> (case s of [] \<Rightarrow> Inl (IndexError (ustr ''string index out of range'')) | c # _ \<Rightarrow> Inr (PStr [c]))
      | PDict kvs \<Rightarrow> Inl (KeyError (PInt 0))
      | _ \<Rightarrow> Inl (not_subscriptable obj))"

definition dict_get :: "pyval \<Rightarrow> pystr \<Rightarrow> pyval \<Rightarrow> exn + pyval" where
  "dict_get obj key dflt =
     (case obj of
        PDict kvs \<Rightarrow> (case map_of kvs key of None \<Rightarrow> Inr dflt | Some v \<Rightarrow> Inr v)
      | _ \<Rightarrow> Inl (AttributeError ([39] @ type_name obj @ [39] @ ustr '' object has no attribute '' @ [39] @ ustr ''get'' @ [39])))"

fun py_truthy :: "pyval \<Rightarrow> bool" where
  "py_truthy PNone = False"
| "py_truthy (PBool b) = b"
| "py_truthy (PInt i) = (i \<noteq> 0)"
| "py_truthy (PFloat x) = (x \<noteq> Finite 0)"
| "py_truthy (PStr s) = (s \<noteq> [])"
| "py_truthy (PList xs) = (xs \<noteq> [])"
| "py_truthy (PDict kvs) = (kvs \<noteq> [])"

definition not_iterable :: "pyval \<Rightarrow> exn" where
  "not_iterable v = TypeError ([39] @ type_name v @ [39] @ ustr '' object is not iterable'')"

fun py_iter :: "pyval \<Rightarrow> exn + pyval list" where
  "py_iter (PList xs) = Inr xs"
| "py_iter (PDict kvs) = Inr (map (\<lambda>(k, v). PStr k) kvs)"
| "py_iter (PStr s) = Inr (map (\<lambda>c. PStr [c]) s)"
| "py_iter v = Inl (not_iterable v)"

fun py_len :: "pyval \<Rightarrow> exn + nat" where
  "py_len (PList xs) = Inr (length xs)"
| "py_len (PDict kvs) = Inr (length kvs)"
| "py_len (PStr s) = Inr (length s)"
| "py_len v = Inl (TypeError (ustr ''object of type '' @ [39] @ type_name v @ [39] @ ustr '' has no len()''))"

fun as_number :: "pyval \<Rightarrow> (int + pyfloat) option" where
  "as_number (PBool b) = Some (Inl (if b then 1 else 0))"
| "as_number (PInt i) = Some (Inl i)"
| "as_number (PFloat x) = Some (Inr x)"
| "as_number v = None"

fun to_float :: "int + pyfloat \<Rightarrow> pyfloat" where
  "to_float (Inl i) = Finite (of_int i)"
| "to_float (Inr x) = x"

fun float_add :: "pyfloat \<Rightarrow> pyfloat \<Rightarrow> pyfloat" where
  "float_add (Finite x) (Finite y) = Finite (x + y)"
| "float_add NaN y = NaN"
| "float_add x NaN = NaN"
| "float_add PosInf NegInf = NaN"
| "float_add NegInf PosInf = NaN"
| "float_add (Finite x) y = y"
| "float_add x y = x"

fun float_div :: "pyfloat \<Rightarrow> nat \<Rightarrow> pyfloat" where
  "float_div (Finite x) n = Finite (x / of_nat n)"
| "float_div x n = x"

definition py_add :: "pyval \<Rightarrow> pyval \<Rightarrow> exn + pyval" where
  "py_add a b =
     (case (as_number a, as_number b) of
        (Some (Inl i), Some (Inl j)) \<Rightarrow> Inr (PInt (i + j))
      | (Some x, Some y) \<Rightarrow> Inr (PFloat (float_add (to_float x) (to_float y)))
      | _ \<Rightarrow> Inl (TypeError (ustr ''unsupported operand type(s) for +: '' @ [39] @ type_name a @ [39]
                                @ ustr '' and '' @ [39] @ type_name b @ [39])))"

definition py_truediv :: "pyval \<Rightarrow> nat \<Rightarrow> exn + pyfloat" where
  "py_truediv a n =
     (case as_number a of
        Some x \<Rightarrow> if n = 0
                  then Inl (ZeroDivisionError (case x of Inl i \<Rightarrow> ustr ''division by zero''
                                               | Inr f \<Rightarrow> ustr ''float division by zero''))
                  else Inr (float_div (to_float x) n)
      | None \<Rightarrow> Inl (TypeError (ustr ''unsupported operand type(s) for /: '' @ [39] @ type_name a @ [39]
                                @ ustr '' and '' @ [39] @ ustr ''int'' @ [39])))"

definition round_half_even :: "rat \<Rightarrow> int" where
  "round_half_even y =
     (let f = \<lfloor>y\<rfloor>; r = y - of_int f
      in if r < 1 / 2 then f
         else if 1 / 2 < r then f + 1
         else if even f then f else f + 1)"

definition py_round2 :: "rat \<Rightarrow> rat" where
  "py_round2 x = of_int (round_half_even (x * 100)) / 100"

fun float_round2 :: "pyfloat \<Rightarrow> pyfloat" where
  "float_round2 (Finite x) = Finite (py_round2 x)"
| "float_round2 x = x"

fun exn_str :: "exn \<Rightarrow> pystr" where
  "exn_str (KeyError k) = py_repr k"
| "exn_str (IndexError m) = m"
| "exn_str (TypeError m) = m"
| "exn_str (AttributeError m) = m"
| "exn_str (ZeroDivisionError m) = m"
| "exn_str (JSONDecodeError m) = m"
| "exn_str (ServiceError m) = m"
| "exn_str (Exception m) = m"

section \<open>The collaborators\<close>

text \<open>
  \<open>describe_instances\<close> receives the list passed as \<^verbatim>\<open>InstanceIds\<close>,
  \<open>get_metric_statistics\<close> the keyword arguments of the call; each returns the response or
  the exception it raised. \<open>now\<close> is \<^verbatim>\<open>datetime.datetime.now()\<close> in microseconds.
\<close>

record metric_request =
  Namespace :: pystr
  MetricName :: pystr
  Dimensions :: "(pystr \<times> pyval) list"
  StartTime :: int
  EndTime :: int
  Period :: int
  Statistics :: "pystr list"

record env =
  describe_instances :: "pyval list \<Rightarrow> exn + pyval"
  get_metric_statistics :: "metric_request \<Rightarrow> exn + pyval"
  now :: int

datatype effect =
    DescribeInstances "pyval list"
  | GetMetricStatistics metric_request
  | Print pystr

section \<open>get_ec2_cpu_utilization\<close>

text \<open>
  \<open>try_body\<close> is the body of the \<^verbatim>\<open>try\<close> statement (lines 19 to 54), with the effects up
  to the point where it returned or raised; \<open>get_ec2_cpu_utilization\<close> adds the
  \<^verbatim>\<open>except Exception\<close> clause (lines 56 to 62). \<^verbatim>\<open>print\<close> is taken to succeed on
  every string.
\<close>

definition instance_type_of :: "pyval \<Rightarrow> exn + pyval" where
  "instance_type_of ec2_response =
     (case getitem_str ec2_response (ustr ''Reservations'') of
        Inl e \<Rightarrow> Inl e
      | Inr reservations \<Rightarrow>
     (case getitem_first reservations of
        Inl e \<Rightarrow> Inl e
      | Inr reservation \<Rightarrow>
     (case getitem_str reservation (ustr ''Instances'') of
        Inl e \<Rightarrow> Inl e
      | Inr instances \<Rightarrow>
     (case getitem_first instances of
        Inl e \<Rightarrow> Inl e
      | Inr inst \<Rightarrow> getitem_str inst (ustr ''InstanceType'')))))"

definition metric_query :: "int \<Rightarrow> pyval \<Rightarrow> metric_request" where
  "metric_query end_time instance_id =
     \<lparr> Namespace = ustr ''AWS/EC2'',
       MetricName = ustr ''CPUUtilization'',
       Dimensions = [(ustr ''InstanceId'', instance_id)],
       StartTime = end_time - 24 * 3600 * 1000000,
       EndTime = end_time,
       Period = 3600,
       Statistics = [ustr ''Average''] \<rparr>"

fun sum_averages :: "pyval \<Rightarrow> pyval list \<Rightarrow> exn + pyval" where
  "sum_averages acc [] = Inr acc"
| "sum_averages acc (p # ps) =
     (case getitem_str p (ustr ''Average'') of
        Inl e \<Rightarrow> Inl e
      | Inr a \<Rightarrow> (case py_add acc a of
                    Inl e \<Rightarrow> Inl e
                  | Inr acc' \<Rightarrow> sum_averages acc' ps))"

definition cpu_average_of :: "pyval \<Rightarrow> exn + pyfloat" where
  "cpu_average_of cloudwatch_response =
     (case dict_get cloudwatch_response (ustr ''Datapoints'') (PList []) of
        Inl e \<Rightarrow> Inl e
      | Inr data_points \<Rightarrow>
          if py_truthy data_points then
            (case py_iter data_points of
               Inl e \<Rightarrow> Inl e
             | Inr ps \<Rightarrow>
            (case sum_averages (PInt 0) ps of
               Inl e \<Rightarrow> Inl e
             | Inr total_cpu \<Rightarrow>
            (case py_len data_points of
               Inl e \<Rightarrow> Inl e
             | Inr n \<Rightarrow> py_truediv total_cpu n)))
          else Inr (Finite 0))"

definition success_summary :: "pyval \<Rightarrow> pyval \<Rightarrow> pyfloat \<Rightarrow> pyval" where
  "success_summary instance_id instance_type cpu_average =
     PDict
       [(ustr ''instance_id'', instance_id),
        (ustr ''instance_type'', instance_type),
        (ustr ''average_cpu_utilization_24h'', PFloat (float_round2 cpu_average)),
        (ustr ''message'',
           PStr (ustr ''Successfully retrieved data for '' @ py_str instance_id
                 @ ustr ''. Average CPU: '' @ pyfloat_repr (float_round2 cpu_average)
                 @ ustr ''%. Current Type: '' @ py_str instance_type))]"

definition failure_summary :: "pyval \<Rightarrow> exn \<Rightarrow> pyval" where
  "failure_summary instance_id e =
     PDict
       [(ustr ''instance_id'', instance_id),
        (ustr ''error'', PStr (exn_str e)),
        (ustr ''message'',
           PStr (ustr ''Failed to retrieve data for '' @ py_str instance_id
                 @ ustr ''. Check instance ID or permissions.''))]"

definition try_body :: "env \<Rightarrow> pyval \<Rightarrow> (exn + pyval) \<times> effect list" where
  "try_body w instance_id =
     (case describe_instances w [instance_id] of
        Inl e \<Rightarrow> (Inl e, [DescribeInstances [instance_id]])
      | Inr ec2_response \<Rightarrow>
     (case instance_type_of ec2_response of
        Inl e \<Rightarrow> (Inl e, [DescribeInstances [instance_id]])
      | Inr instance_type \<Rightarrow>
          (let q = metric_query (now w) instance_id;
               calls = [DescribeInstances [instance_id], GetMetricStatistics q]
           in case get_metric_statistics w q of
                Inl e \<Rightarrow> (Inl e, calls)
              | Inr cloudwatch_response \<Rightarrow>
                  (case cpu_average_of cloudwatch_response of
                     Inl e \<Rightarrow> (Inl e, calls)
                   | Inr cpu_average \<Rightarrow>
                       (Inr (success_summary instance_id instance_type cpu_average), calls)))))"

definition get_ec2_cpu_utilization :: "env \<Rightarrow> pyval \<Rightarrow> pyval \<times> effect list" where
  "get_ec2_cpu_utilization w instance_id =
     (case try_body w instance_id of
        (Inr result, effects) \<Rightarrow> (result, effects)
      | (Inl e, effects) \<Rightarrow>
          (failure_summary instance_id e,
           effects @ [Print (ustr ''Error retrieving data for '' @ py_str instance_id
                             @ ustr '': '' @ exn_str e)]))"

section \<open>lambda_handler\<close>

text \<open>
  The handler returns the outbound envelope or the exception that left it, with the effects
  that happened before. \<^verbatim>\<open>event['httpMethod']\<close> is read while the returned dictionary is
  built, after the resolver has run.
\<close>

definition py_json_loads :: "pyval \<Rightarrow> exn + pyval" where
  "py_json_loads v =
     (case v of
        PStr s \<Rightarrow> json_loads s
      | _ \<Rightarrow> Inl (TypeError (ustr ''the JSON object must be str, bytes or bytearray, not '' @ type_name v)))"

definition request_body_of :: "pyval \<Rightarrow> exn + pyval" where
  "request_body_of event =
     (case getitem_str event (ustr ''requestBody'') of
        Inl e \<Rightarrow> Inl e
      | Inr request_body \<Rightarrow>
     (case getitem_str request_body (ustr ''content'') of
        Inl e \<Rightarrow> Inl e
      | Inr content \<Rightarrow>
     (case getitem_str content (ustr ''application/json'') of
        Inl e \<Rightarrow> Inl e
      | Inr app_json \<Rightarrow> getitem_str app_json (ustr ''body''))))"

definition api_route :: pystr where
  "api_route = ustr ''/get_ec2_cpu_utilization''"

definition envelope :: "pyval \<Rightarrow> pyval \<Rightarrow> pyval \<Rightarrow> pyval \<Rightarrow> pyval" where
  "envelope action api_path http_method response_body =
     PDict
       [(ustr ''response'',
         PDict
           [(ustr ''actionGroup'', action),
            (ustr ''apiPath'', api_path),
            (ustr ''httpMethod'', http_method),
            (ustr ''httpStatusCode'', PInt 200),
            (ustr ''responseBody'', response_body)])]"

definition lambda_handler :: "env \<Rightarrow> pyval \<Rightarrow> (exn + pyval) \<times> effect list" where
  "lambda_handler w event =
     (case getitem_str event (ustr ''actionGroup'') of
        Inl e \<Rightarrow> (Inl e, [])
      | Inr action \<Rightarrow>
     (case getitem_str event (ustr ''apiPath'') of
        Inl e \<Rightarrow> (Inl e, [])
      | Inr api_path \<Rightarrow>
          if api_path = PStr api_route then
            (case request_body_of event of
               Inl e \<Rightarrow> (Inl e, [])
             | Inr body \<Rightarrow>
            (case py_json_loads body of
               Inl e \<Rightarrow> (Inl e, [])
             | Inr parameters \<Rightarrow>
            (case dict_get parameters (ustr ''instance_id'') PNone of
               Inl e \<Rightarrow> (Inl e, [])
             | Inr instance_id \<Rightarrow>
                 (let (result, effects) = get_ec2_cpu_utilization w instance_id;
                      response_body =
                        PDict [(ustr ''application/json'',
                                PDict [(ustr ''body'', PStr (json_dumps result))])]
                  in case getitem_str event (ustr ''httpMethod'') of
                       Inl e \<Rightarrow> (Inl e, effects)
                     | Inr http_method \<Rightarrow>
                         (Inr (envelope action api_path http_method response_body), effects)))))
          else (Inl (Exception (ustr ''Unsupported API path: '' @ py_str api_path)), [])))"

section \<open>Notions used to state the properties\<close>

text \<open>
  \<open>dict_keys\<close> is \<^verbatim>\<open>list(d.keys())\<close>; the two lists of field names are the two shapes
  of the summary. \<open>mean_rounded\<close> follows the words of the specification: the unweighted
  arithmetic mean of the bucket averages, rounded once to two decimals. \<open>is_describe\<close>
  recognises an inventory lookup among the effects, and \<open>instance_id_of\<close> is what
  \<^verbatim>\<open>parameters.get('instance_id')\<close> yields on the decoded request body.
\<close>

fun dict_keys :: "pyval \<Rightarrow> pystr list option" where
  "dict_keys (PDict kvs) = Some (map fst kvs)"
| "dict_keys v = None"

definition success_fields :: "pystr list" where
  "success_fields = [ustr ''instance_id'', ustr ''instance_type'',
                     ustr ''average_cpu_utilization_24h'', ustr ''message'']"



definition is_describe :: "effect \<Rightarrow> bool" where
  "is_describe x = (case x of DescribeInstances ids \<Rightarrow> True | _ \<Rightarrow> False)"

definition instance_id_of :: "(pystr \<times> pyval) list \<Rightarrow> pyval" where
  "instance_id_of params = (case map_of params (ustr ''instance_id'') of None \<Rightarrow> PNone | Some v \<Rightarrow> v)"


text \<open>
  A rational is \<open>decimal\<close> when its decimal expansion ends, as that of every double does;
  \<open>finite_float\<close> is a finite float with such an expansion, and \<open>json_float\<close> a float
  that is equal to itself in Python: a finite one or an infinity, but not NaN.
  \<open>json_text\<close> is a string of code points in which no high surrogate is immediately
  followed by a low surrogate, and \<open>json_value\<close> a value whose strings are such, whose floats
  are \<open>json_float\<close>s and whose dictionaries have each key once (as a Python \<^verbatim>\<open>dict\<close>
  always has).
  A code point is a Unicode scalar value when it is no surrogate; \<open>unicode_text\<close> is a
  string of scalar values, which is what UTF-8 can encode, and \<open>wf_json\<close> a value made of
  such strings and of finite floats: a special case of \<open>json_value\<close>.
  \<open>is_decode_error\<close> recognises a \<^verbatim>\<open>JSONDecodeError\<close>.
\<close>

definition scalar :: "nat \<Rightarrow> bool" where
  "scalar c \<longleftrightarrow> c < 55296 \<or> (57344 \<le> c \<and> c < 1114112)"

definition unicode_text :: "pystr \<Rightarrow> bool" where
  "unicode_text s \<longleftrightarrow> (\<forall>c \<in> set s. scalar c)"

definition decimal :: "rat \<Rightarrow> bool" where
  "decimal q \<longleftrightarrow> (\<exists>k. q * 10 ^ k \<in> \<int>)"

fun finite_float :: "pyfloat \<Rightarrow> bool" where
  "finite_float (Finite q) = decimal q"
| "finite_float x = False"

fun json_float :: "pyfloat \<Rightarrow> bool" where
  "json_float (Finite q) = decimal q"
| "json_float NaN = False"
| "json_float x = True"

fun wf_json :: "pyval \<Rightarrow> bool" where
  "wf_json PNone = True"
| "wf_json (PBool b) = True"
| "wf_json (PInt i) = True"
| "wf_json (PFloat x) = finite_float x"
| "wf_json (PStr s) = unicode_text s"
| "wf_json (PList xs) = (\<forall>x \<in> set xs. wf_json x)"
| "wf_json (PDict kvs) =
     (distinct (map fst kvs) \<and> (\<forall>(k, v) \<in> set kvs. unicode_text k \<and> wf_json v))"

fun no_surrogate_pair :: "pystr \<Rightarrow> bool" where
  "no_surrogate_pair [] = True"
| "no_surrogate_pair [c] = True"
| "no_surrogate_pair (c # d # s) =
     (\<not> (is_high_surrogate c \<and> is_low_surrogate d) \<and> no_surrogate_pair (d # s))"

definition json_text :: "pystr \<Rightarrow> bool" where
  "json_text s \<longleftrightarrow> (\<forall>c \<in> set s. c < 1114112) \<and> no_surrogate_pair s"

fun json_value :: "pyval \<Rightarrow> bool" where
  "json_value PNone = True"
| "json_value (PBool b) = True"
| "json_value (PInt i) = True"
| "json_value (PFloat x) = json_float x"
| "json_value (PStr s) = json_text s"
| "json_value (PList xs) = (\<forall>x \<in> set xs. json_value x)"
| "json_value (PDict kvs) =
     (distinct (map fst kvs) \<and> (\<forall>(k, v) \<in> set kvs. json_text k \<and> json_value v))"

fun is_decode_error :: "exn \<Rightarrow> bool" where
  "is_decode_error (JSONDecodeError m) = True"
| "is_decode_error e = False"


text \<open>
  Auxiliary notions of the codec proofs: a number ends where \<open>match_number\<close> cannot go on,
  a value starts with one of a few characters, and \<open>encode_item\<close> is one member of an object.
\<close>

definition number_end :: "pystr \<Rightarrow> bool" where
  "number_end r \<longleftrightarrow> (case r of [] \<Rightarrow> True | c # _ \<Rightarrow> \<not> is_digit c \<and> c \<noteq> 46 \<and> c \<noteq> 101 \<and> c \<noteq> 69)"

definition value_start :: "nat \<Rightarrow> bool" where
  "value_start c \<longleftrightarrow> c = 34 \<or> c = 45 \<or> c = 91 \<or> c = 123 \<or> c = 110 \<or> c = 116 \<or> c = 102
                     \<or> c = 78 \<or> c = 73 \<or> is_digit c"

definition encode_item :: "pystr \<times> pyval \<Rightarrow> pystr" where
  "encode_item kv = encode_string (fst kv) @ ustr '': '' @ encode (snd kv)"


section \<open>Scenarios\<close>

text \<open>
  The scenarios of the specification: instance \<^verbatim>\<open>i-123\<close> of type \<^verbatim>\<open>t3.micro\<close> with the
  given hourly datapoints, instance \<^verbatim>\<open>i-456\<close> whose metrics the caller may not read,
  instance \<^verbatim>\<open>i-000\<close> for which the inventory answers with no reservation, and any other
  identifier unknown to the inventory. \<open>stub_env\<close> is an
  inventory that reports the given type for every identifier, with a metrics service that
  has no datapoint.
\<close>

definition datapoint :: "rat \<Rightarrow> pyval" where
  "datapoint a =
     PDict [(ustr ''Average'', PFloat (Finite a)), (ustr ''Unit'', PStr (ustr ''Percent''))]"

definition inventory_response :: "pystr \<Rightarrow> pyval" where
  "inventory_response t =
     PDict [(ustr ''Reservations'',
       PList [PDict [(ustr ''Instances'', PList [PDict [(ustr ''InstanceType'', PStr t)]])]])]"

definition scenario_env :: "pyval \<Rightarrow> env" where
  "scenario_env datapoints =
     \<lparr> describe_instances =
         (\<lambda>ids. if ids = [PStr (ustr ''i-123'')] then Inr (inventory_response (ustr ''t3.micro''))
                else if ids = [PStr (ustr ''i-456'')] then Inr (inventory_response (ustr ''m5.large''))
                else if ids = [PStr (ustr ''i-000'')] then Inr (PDict [(ustr ''Reservations'', PList [])])
                else Inl (ServiceError (ustr ''InvalidInstanceID.NotFound''))),
       get_metric_statistics =
         (\<lambda>q. if Dimensions q = [(ustr ''InstanceId'', PStr (ustr ''i-123''))]
              then Inr (PDict [(ustr ''Datapoints'', datapoints)])
              else Inl (ServiceError (ustr ''AccessDenied''))),
       now = 86400000000 \<rparr>"

definition scenario_event :: "pystr \<Rightarrow> pystr \<Rightarrow> pyval" where
  "scenario_event path body =
     PDict [(ustr ''actionGroup'', PStr (ustr ''cost'')),
            (ustr ''apiPath'', PStr path),
            (ustr ''httpMethod'', PStr (ustr ''POST'')),
            (ustr ''requestBody'',
               PDict [(ustr ''content'',
                 PDict [(ustr ''application/json'', PDict [(ustr ''body'', PStr body)])])])]"

definition stub_env :: "pystr \<Rightarrow> env" where
  "stub_env t =
     \<lparr> describe_instances = (\<lambda>ids. Inr (inventory_response t)),
       get_metric_statistics = (\<lambda>q. Inr (PDict [])),
       now = 0 \<rparr>"


declare digits10.simps [simp del]

section \<open>Evaluation of the model\<close>

lemma ustr_neq [simp]: "(ustr a = ustr b) = (a = b)"
  by (simp add: ustr_def inj_map_eq_map inj_on_def)

lemmas resolver_defs =
  get_ec2_cpu_utilization_def try_body_def instance_type_of_def getitem_str_def getitem_first_def
  metric_query_def cpu_average_of_def dict_get_def py_truediv_def py_add_def
  success_summary_def failure_summary_def Let_def

lemmas scenario_defs = scenario_env_def inventory_response_def datapoint_def scenario_event_def

lemmas json_loads_defs =
  json_loads_def starts_with_def skip_ws_def is_ws_def parse_value.simps parse_object.simps
  parse_array.simps decode_escape_def cons_char_def dict_of_pairs_def

lemmas encode_defs =
  json_dumps_def encode_string_def json_escape_char_def hex4_def hexdigit_def

lemmas decode_defs =
  json_loads_def starts_with_def skip_ws_def is_ws_def parse_value.simps parse_object.simps
  parse_array.simps decode_escape_def decode_surrogate_def parse_hex4_def hexval_def unescape_def
  is_high_surrogate_def is_low_surrogate_def join_surrogates_def cons_char_def dict_of_pairs_def

lemma scenario_event_fields:
  "getitem_str (scenario_event p b) (ustr ''actionGroup'') = Inr (PStr (ustr ''cost''))"
  "getitem_str (scenario_event p b) (ustr ''apiPath'') = Inr (PStr p)"
  "getitem_str (scenario_event p b) (ustr ''httpMethod'') = Inr (PStr (ustr ''POST''))"
  "request_body_of (scenario_event p b) = Inr (PStr b)"
  by (simp_all add: scenario_event_def getitem_str_def request_body_of_def)

lemma loads_empty_object: "json_loads (ustr ''{}'') = Inr (PDict [])"
  by (simp add: json_loads_defs ustr_def)


lemma loads_nan:
  "json_loads (ustr ''{\"instance_id\": NaN}'') = Inr (PDict [(ustr ''instance_id'', PFloat NaN)])"
  by (simp add: json_loads_defs ustr_def match_number_def is_digit_def)

lemma py_round2_0: "py_round2 0 = 0"
  by (simp add: py_round2_def round_half_even_def)



section \<open>The decoder consumes its input and fails with a decode error only\<close>

lemma decode_escape_error: "decode_escape s = Inl e \<Longrightarrow> is_decode_error e"
  by (auto simp: decode_escape_def decode_surrogate_def invalid_uXXXX_def unterminated_def
           split: list.splits option.splits if_splits)

lemma scanstring_error: "scanstring s = Inl e \<Longrightarrow> is_decode_error e"
proof (induction s arbitrary: e rule: scanstring.induct)
  case 1
  then show ?case by (auto simp: unterminated_def)
next
  case (2 c cs)
  then show ?case
    by (auto simp: cons_char_def split: if_splits sum.splits prod.splits dest: decode_escape_error)
qed

lemma decode_escape_shorter: "decode_escape s = Inr (c, r) \<Longrightarrow> length r < length s"
  by (auto simp: decode_escape_def decode_surrogate_def parse_hex4_def
           split: list.splits option.splits if_splits)

lemma scanstring_shorter: "scanstring s = Inr (str, r) \<Longrightarrow> length r < length s"
proof (induction s arbitrary: str r rule: scanstring.induct)
  case 1
  then show ?case by simp
next
  case (2 c cs)
  then show ?case
    by (fastforce simp: cons_char_def split: if_splits sum.splits prod.splits
                  dest: decode_escape_shorter)
qed

lemma match_exponent_shorter: "match_exponent s = (x, r) \<Longrightarrow> length r \<le> length s"
  by (auto simp: match_exponent_def Let_def split: list.splits if_splits prod.splits
           intro: le_trans [OF length_dropWhile_le])

lemma match_fraction_shorter: "match_fraction s = (x, r) \<Longrightarrow> length r \<le> length s"
  by (auto simp: match_fraction_def split: list.splits if_splits
           intro: le_trans [OF length_dropWhile_le])

lemma match_number_shorter: "match_number s = Some (v, r) \<Longrightarrow> length r < length s"
proof -
  assume a: "match_number s = Some (v, r)"
  have tail: "length r2 \<le> length r0"
    if "match_fraction r0 = (fr, r1)" "match_exponent r1 = (ex, r2)" for r0 fr r1 ex r2
    using match_fraction_shorter [OF that(1)] match_exponent_shorter [OF that(2)] by simp
  have dw: "length (dropWhile is_digit t) \<le> length t" for t
    by (rule length_dropWhile_le)
  show ?thesis
  proof (cases s)
    case Nil
    with a show ?thesis by (simp add: match_number_def)
  next
    case (Cons c t)
    show ?thesis
    proof (cases "c = 45")
      case True
      with a Cons obtain d u where tu: "t = d # u" and d: "is_digit d"
        by (cases t) (auto simp: match_number_def split: if_splits)
      obtain fr r1 where fr: "match_fraction (if d = 48 then u else dropWhile is_digit (d # u)) = (fr, r1)"
        by (cases "match_fraction (if d = 48 then u else dropWhile is_digit (d # u))")
      obtain ex r2 where ex: "match_exponent r1 = (ex, r2)" by (cases "match_exponent r1")
      have "r = r2"
        using a Cons True tu d fr ex
        by (auto simp: match_number_def split: if_splits)
      moreover have "length r2 \<le> length (if d = 48 then u else dropWhile is_digit (d # u))"
        by (rule tail [OF fr ex])
      moreover have "length (if d = 48 then u else dropWhile is_digit (d # u)) \<le> length (d # u)"
        using dw [of "d # u"] by (simp del: dropWhile.simps)
      ultimately show ?thesis using Cons tu by simp
    next
      case False
      with a Cons have d: "is_digit c" by (auto simp: match_number_def split: if_splits)
      obtain fr r1 where fr: "match_fraction (if c = 48 then t else dropWhile is_digit (c # t)) = (fr, r1)"
        by (cases "match_fraction (if c = 48 then t else dropWhile is_digit (c # t))")
      obtain ex r2 where ex: "match_exponent r1 = (ex, r2)" by (cases "match_exponent r1")
      have "r = r2"
        using a Cons False d fr ex
        by (auto simp: match_number_def split: if_splits)
      moreover have "length r2 \<le> length (if c = 48 then t else dropWhile is_digit (c # t))"
        by (rule tail [OF fr ex])
      moreover have "length (dropWhile is_digit (c # t)) \<le> length t"
        using d dw [of t] by simp
      ultimately show ?thesis using Cons by (simp split: if_splits)
    qed
  qed
qed

lemma skip_ws_length: "length (skip_ws s) \<le> length s"
  unfolding skip_ws_def by (rule length_dropWhile_le)

lemma skip_ws_Cons_length: "skip_ws s = d # r \<Longrightarrow> length r < length s"
  using skip_ws_length [of s] by simp

lemma parse_value_Nil: "parse_value [] = Inl expecting_value"
  by (subst parse_value.simps) simp

lemma parse_value_quote:
  "parse_value (34 # t) =
     (case scanstring t of Inl e \<Rightarrow> Inl e | Inr (str, r) \<Rightarrow> Inr (PStr str, r))"
  by (subst parse_value.simps) simp

lemma parse_value_brace:
  "parse_value (123 # t) =
     (case skip_ws t of
        [] \<Rightarrow> Inl expecting_name
      | d # r \<Rightarrow> if d = 125 then Inr (PDict [], r)
                 else if d = 34 then parse_object r []
                 else Inl expecting_name)"
  by (subst parse_value.simps) simp

lemma parse_value_bracket:
  "parse_value (91 # t) =
     (case skip_ws t of
        [] \<Rightarrow> Inl expecting_value
      | d # r \<Rightarrow> if d = 93 then Inr (PList [], r) else parse_array (d # r) [])"
  by (subst parse_value.simps) simp

lemma parse_value_scalar:
  assumes "c \<noteq> 34" "c \<noteq> 123" "c \<noteq> 91"
  shows "parse_value (c # t) =
     (if starts_with (ustr ''null'') (c # t) then Inr (PNone, drop 4 (c # t))
      else if starts_with (ustr ''true'') (c # t) then Inr (PBool True, drop 4 (c # t))
      else if starts_with (ustr ''false'') (c # t) then Inr (PBool False, drop 5 (c # t))
      else (case match_number (c # t) of
              Some (v, r) \<Rightarrow> Inr (v, r)
            | None \<Rightarrow>
                if starts_with (ustr ''NaN'') (c # t) then Inr (PFloat NaN, drop 3 (c # t))
                else if starts_with (ustr ''Infinity'') (c # t) then Inr (PFloat PosInf, drop 8 (c # t))
                else if starts_with (ustr ''-Infinity'') (c # t) then Inr (PFloat NegInf, drop 9 (c # t))
                else Inl expecting_value))"
  using assms by (subst parse_value.simps) simp

lemma parser_results:
  "(\<forall>v r. parse_value s = Inr (v, r) \<longrightarrow> length r < length s)
     \<and> (\<forall>e. parse_value s = Inl e \<longrightarrow> is_decode_error e)"
  "(\<forall>v r. parse_array s xs = Inr (v, r) \<longrightarrow> length r < length s)
     \<and> (\<forall>e. parse_array s xs = Inl e \<longrightarrow> is_decode_error e)"
  "(\<forall>v r. parse_object s kvs = Inr (v, r) \<longrightarrow> length r < length s)
     \<and> (\<forall>e. parse_object s kvs = Inl e \<longrightarrow> is_decode_error e)"
proof (induction s and s xs and s kvs rule: parse_value_parse_array_parse_object.induct)
  case (1 s)
  show ?case
  proof (cases s)
    case Nil
    then show ?thesis by (simp add: parse_value_Nil expecting_value_def)
  next
    case (Cons c t)
    consider (quote) "c = 34" | (brace) "c \<noteq> 34" "c = 123" | (bracket) "c \<noteq> 34" "c \<noteq> 123" "c = 91"
      | (scalar) "c \<noteq> 34" "c \<noteq> 123" "c \<noteq> 91" by blast
    then show ?thesis
    proof cases
      case quote
      show ?thesis
        unfolding Cons quote parse_value_quote
        by (auto split: sum.splits dest: scanstring_error scanstring_shorter)
    next
      case brace
      show ?thesis
      proof (cases "skip_ws t")
        case Nil
        then show ?thesis
          unfolding Cons brace(2) parse_value_brace by (simp add: expecting_name_def)
      next
        case sk: (Cons d r)
        have len: "length r < length t" by (rule skip_ws_Cons_length [OF sk])
        show ?thesis
        proof (cases "d = 34")
          case True
          have ih: "(\<forall>v r'. parse_object r [] = Inr (v, r') \<longrightarrow> length r' < length r)
                    \<and> (\<forall>e. parse_object r [] = Inl e \<longrightarrow> is_decode_error e)"
            using "1.IH"(1) [OF Cons brace sk _ True] True by simp
          show ?thesis
            unfolding Cons brace(2) parse_value_brace sk
            using ih len True by auto
        next
          case False
          show ?thesis
            unfolding Cons brace(2) parse_value_brace sk
            using len False by (auto simp: expecting_name_def)
        qed
      qed
    next
      case bracket
      show ?thesis
      proof (cases "skip_ws t")
        case Nil
        then show ?thesis
          unfolding Cons bracket(3) parse_value_bracket by (simp add: expecting_value_def)
      next
        case sk: (Cons d r)
        have len: "length r < length t" by (rule skip_ws_Cons_length [OF sk])
        show ?thesis
        proof (cases "d = 93")
          case True
          show ?thesis
            unfolding Cons bracket(3) parse_value_bracket sk
            using len True by auto
        next
          case False
          have ih: "(\<forall>v r'. parse_array (d # r) [] = Inr (v, r') \<longrightarrow> length r' < length (d # r))
                    \<and> (\<forall>e. parse_array (d # r) [] = Inl e \<longrightarrow> is_decode_error e)"
            by (rule "1.IH"(2) [OF Cons bracket sk False])
          show ?thesis
            unfolding Cons bracket(3) parse_value_bracket sk
            using ih len False by auto
        qed
      qed
    next
      case scalar
      show ?thesis
        unfolding Cons parse_value_scalar [OF scalar]
        by (auto simp: expecting_value_def split: option.splits dest: match_number_shorter)
    qed
  qed
next
  case (2 s acc)
  show ?case
  proof (cases "parse_value s")
    case (Inl e)
    then have "parse_array s acc = Inl e" by (subst parse_array.simps) simp
    with "2.IH"(1) Inl show ?thesis by simp
  next
    case (Inr p)
    obtain v r where p: "p = (v, r)" by (cases p)
    have pv: "parse_value s = Inr (v, r)" using Inr p by simp
    show ?thesis
    proof (cases "length r < length s")
      case False
      then have "parse_array s acc = Inl expecting_value"
        using pv by (subst parse_array.simps) simp
      then show ?thesis by (simp add: expecting_value_def)
    next
      case len: True
      show ?thesis
      proof (cases "skip_ws r")
        case Nil
        then have "parse_array s acc = Inl expecting_comma"
          using pv len by (subst parse_array.simps) simp
        then show ?thesis by (simp add: expecting_comma_def)
      next
        case sk: (Cons d r1)
        have len1: "length r1 < length r" by (rule skip_ws_Cons_length [OF sk])
        consider (close) "d = 93" | (comma) "d \<noteq> 93" "d = 44" | (other) "d \<noteq> 93" "d \<noteq> 44"
          by blast
        then show ?thesis
        proof cases
          case close
          then have "parse_array s acc = Inr (PList (acc @ [v]), r1)"
            using pv len sk by (subst parse_array.simps) simp
          then show ?thesis using len len1 by simp
        next
          case comma
          have eq: "parse_array s acc = parse_array (skip_ws r1) (acc @ [v])"
            using pv len sk comma by (subst parse_array.simps) simp
          have ih: "(\<forall>v' r'. parse_array (skip_ws r1) (acc @ [v]) = Inr (v', r')
                        \<longrightarrow> length r' < length (skip_ws r1))
                    \<and> (\<forall>e. parse_array (skip_ws r1) (acc @ [v]) = Inl e \<longrightarrow> is_decode_error e)"
            by (rule "2.IH"(2) [OF pv [symmetric, THEN sym] refl len sk comma])
          show ?thesis
            unfolding eq using ih len len1 skip_ws_length [of r1] by fastforce
        next
          case other
          then have "parse_array s acc = Inl expecting_comma"
            using pv len sk by (subst parse_array.simps) simp
          then show ?thesis by (simp add: expecting_comma_def)
        qed
      qed
    qed
  qed
next
  case (3 s acc)
  show ?case
  proof (cases "scanstring s")
    case (Inl e)
    then have "parse_object s acc = Inl e" by (subst parse_object.simps) simp
    with scanstring_error [OF Inl] show ?thesis by simp
  next
    case (Inr p)
    obtain key r where p: "p = (key, r)" by (cases p)
    have sc: "scanstring s = Inr (key, r)" using Inr p by simp
    have lr: "length r < length s" by (rule scanstring_shorter [OF sc])
    show ?thesis
    proof (cases "skip_ws r")
      case Nil
      then have "parse_object s acc = Inl expecting_colon"
        using sc by (subst parse_object.simps) simp
      then show ?thesis by (simp add: expecting_colon_def)
    next
      case sk: (Cons d r1)
      show ?thesis
      proof (cases "d = 58 \<and> length r1 < length s")
        case False
        then have "parse_object s acc = Inl expecting_colon"
          using sc sk by (subst parse_object.simps) auto
        then show ?thesis by (simp add: expecting_colon_def)
      next
        case colon: True
        have ih1: "(\<forall>v r'. parse_value (skip_ws r1) = Inr (v, r') \<longrightarrow> length r' < length (skip_ws r1))
                   \<and> (\<forall>e. parse_value (skip_ws r1) = Inl e \<longrightarrow> is_decode_error e)"
          using "3.IH"(1) [OF Inr p [symmetric] sk colon] .
        show ?thesis
        proof (cases "parse_value (skip_ws r1)")
          case (Inl e)
          then have "parse_object s acc = Inl e"
            using sc sk colon by (subst parse_object.simps) simp
          with ih1 Inl show ?thesis by simp
        next
          case pr: (Inr p2)
          obtain v r2 where p2: "p2 = (v, r2)" by (cases p2)
          have pv: "parse_value (skip_ws r1) = Inr (v, r2)" using pr p2 by simp
          show ?thesis
          proof (cases "length r2 < length s")
            case False
            then have "parse_object s acc = Inl expecting_value"
              using sc sk colon pv by (subst parse_object.simps) simp
            then show ?thesis by (simp add: expecting_value_def)
          next
            case len2: True
            show ?thesis
            proof (cases "skip_ws r2")
              case Nil
              then have "parse_object s acc = Inl expecting_comma"
                using sc sk colon pv len2 by (subst parse_object.simps) simp
              then show ?thesis by (simp add: expecting_comma_def)
            next
              case sk2: (Cons d2 r3)
              have len3: "length r3 < length r2" by (rule skip_ws_Cons_length [OF sk2])
              consider (close) "d2 = 125" | (comma) "d2 \<noteq> 125" "d2 = 44"
                | (other) "d2 \<noteq> 125" "d2 \<noteq> 44" by blast
              then show ?thesis
              proof cases
                case close
                then have "parse_object s acc = Inr (PDict (dict_of_pairs (acc @ [(key, v)])), r3)"
                  using sc sk colon pv len2 sk2 by (subst parse_object.simps) simp
                then show ?thesis using len2 len3 by simp
              next
                case other
                then have "parse_object s acc = Inl expecting_comma"
                  using sc sk colon pv len2 sk2 by (subst parse_object.simps) simp
                then show ?thesis by (simp add: expecting_comma_def)
              next
                case comma
                show ?thesis
                proof (cases "skip_ws r3")
                  case Nil
                  then have "parse_object s acc = Inl expecting_name"
                    using sc sk colon pv len2 sk2 comma by (subst parse_object.simps) simp
                  then show ?thesis by (simp add: expecting_name_def)
                next
                  case sk3: (Cons d3 r4)
                  have len4: "length r4 < length r3" by (rule skip_ws_Cons_length [OF sk3])
                  show ?thesis
                  proof (cases "d3 = 34")
                    case False
                    then have "parse_object s acc = Inl expecting_name"
                      using sc sk colon pv len2 sk2 comma sk3 by (subst parse_object.simps) simp
                    then show ?thesis by (simp add: expecting_name_def)
                  next
                    case True
                    have eq: "parse_object s acc = parse_object r4 (acc @ [(key, v)])"
                      using sc sk colon pv len2 sk2 comma sk3 True
                      by (subst parse_object.simps) simp
                    have ih2: "(\<forall>v' r'. parse_object r4 (acc @ [(key, v)]) = Inr (v', r')
                                  \<longrightarrow> length r' < length r4)
                               \<and> (\<forall>e. parse_object r4 (acc @ [(key, v)]) = Inl e
                                  \<longrightarrow> is_decode_error e)"
                      using "3.IH"(2) [OF Inr p [symmetric] sk colon pr p2 [symmetric] len2 sk2
                                          comma sk3 True] .
                    show ?thesis
                      unfolding eq using ih2 len2 len3 len4 by fastforce
                  qed
                qed
              qed
            qed
          qed
        qed
      qed
    qed
  qed
qed

lemma parse_value_consumes: "parse_value s = Inr (v, r) \<Longrightarrow> length r < length s"
  using parser_results(1) [of s] by simp

text \<open>
  The length tests of \<open>parse_array\<close> and \<open>parse_object\<close> are redundant: both functions
  satisfy the equations without them.
\<close>

lemma parse_array_unguarded:
  "parse_array s acc =
     (case parse_value s of
        Inl e \<Rightarrow> Inl e
      | Inr (v, r) \<Rightarrow>
          (case skip_ws r of
             [] \<Rightarrow> Inl expecting_comma
           | d # r1 \<Rightarrow> if d = 93 then Inr (PList (acc @ [v]), r1)
                       else if d = 44 then parse_array (skip_ws r1) (acc @ [v])
                       else Inl expecting_comma))"
  by (subst parse_array.simps) (auto split: sum.splits dest: parse_value_consumes)

lemma parse_object_unguarded:
  "parse_object s acc =
     (case scanstring s of
        Inl e \<Rightarrow> Inl e
      | Inr (key, r) \<Rightarrow>
          (case skip_ws r of
             [] \<Rightarrow> Inl expecting_colon
           | d # r1 \<Rightarrow>
               if d = 58 then
                 (case parse_value (skip_ws r1) of
                    Inl e \<Rightarrow> Inl e
                  | Inr (v, r2) \<Rightarrow>
                      (case skip_ws r2 of
                         [] \<Rightarrow> Inl expecting_comma
                       | d2 # r3 \<Rightarrow>
                           if d2 = 125 then Inr (PDict (dict_of_pairs (acc @ [(key, v)])), r3)
                           else if d2 = 44 then
                             (case skip_ws r3 of
                                [] \<Rightarrow> Inl expecting_name
                              | d3 # r4 \<Rightarrow>
                                  if d3 = 34 then parse_object r4 (acc @ [(key, v)])
                                  else Inl expecting_name)
                           else Inl expecting_comma))
               else Inl expecting_colon))"
proof (cases "scanstring s")
  case (Inl e)
  then show ?thesis by (subst parse_object.simps) simp
next
  case (Inr p)
  obtain key r where p: "p = (key, r)" by (cases p)
  have sc: "scanstring s = Inr (key, r)" using Inr p by simp
  have lr: "length r < length s" by (rule scanstring_shorter [OF sc])
  show ?thesis
  proof (cases "skip_ws r")
    case Nil
    then show ?thesis using sc by (subst parse_object.simps) simp
  next
    case sk: (Cons d r1)
    have l1: "length r1 < length s" using skip_ws_Cons_length [OF sk] lr by simp
    show ?thesis
    proof (cases "parse_value (skip_ws r1)")
      case (Inl e)
      then show ?thesis using sc sk l1 by (subst parse_object.simps) simp
    next
      case pr: (Inr p2)
      obtain v r2 where p2: "p2 = (v, r2)" by (cases p2)
      have pv: "parse_value (skip_ws r1) = Inr (v, r2)" using pr p2 by simp
      have "length r2 < length (skip_ws r1)" by (rule parse_value_consumes [OF pv])
      then have l2: "length r2 < length s" using skip_ws_length [of r1] l1 by simp
      show ?thesis using sc sk l1 pv l2 by (subst parse_object.simps) simp
    qed
  qed
qed

lemma json_loads_error: "json_loads s = Inl e \<Longrightarrow> is_decode_error e"
  using parser_results(1) [of "skip_ws s"]
  by (auto simp: json_loads_def split: if_splits sum.splits prod.splits)


section \<open>Decoding what the encoder wrote\<close>

subsection \<open>Numbers\<close>

lemma digits10_all_digits: "\<forall>c \<in> set (digits10 n). is_digit c"
proof (induction n rule: digits10.induct)
  case (1 n)
  show ?case
  proof (cases "n < 10")
    case True
    then show ?thesis by (subst digits10.simps) (simp add: is_digit_def)
  next
    case False
    with 1 show ?thesis by (subst digits10.simps) (simp add: is_digit_def)
  qed
qed

lemma digits10_nonempty: "digits10 n \<noteq> []"
  by (subst digits10.simps) simp

lemma foldl_digits_shift:
  "foldl (\<lambda>a d. 10 * a + (d - 48)) a ds
     = a * 10 ^ length ds + foldl (\<lambda>a d. 10 * a + (d - 48)) (0::nat) ds"
proof -
  define f :: "nat \<Rightarrow> nat \<Rightarrow> nat" where "f = (\<lambda>a d. 10 * a + (d - 48))"
  have "foldl f a ds = a * 10 ^ length ds + foldl f 0 ds"
  proof (induction ds arbitrary: a)
    case Nil
    then show ?case by simp
  next
    case (Cons d ds)
    have 1: "foldl f (f a d) ds = f a d * 10 ^ length ds + foldl f 0 ds" by (rule Cons.IH)
    have 2: "foldl f (f 0 d) ds = f 0 d * 10 ^ length ds + foldl f 0 ds" by (rule Cons.IH)
    have 3: "f a d = 10 * a + f 0 d" by (simp add: f_def)
    have "foldl f a (d # ds) = foldl f (f a d) ds" by simp
    also have "\<dots> = (10 * a + f 0 d) * 10 ^ length ds + foldl f 0 ds"
      using 1 by (simp only: 3)
    also have "\<dots> = a * 10 ^ length (d # ds) + foldl f 0 (d # ds)"
      by (simp add: 2 algebra_simps)
    finally show ?case .
  qed
  then show ?thesis by (simp add: f_def)
qed

lemma nat_of_digits_Nil [simp]: "nat_of_digits [] = 0"
  by (simp add: nat_of_digits_def)

lemma nat_of_digits_Cons:
  "nat_of_digits (d # ds) = (d - 48) * 10 ^ length ds + nat_of_digits ds"
  using foldl_digits_shift [of "d - 48" ds] by (simp add: nat_of_digits_def)

lemma nat_of_digits_snoc:
  "nat_of_digits (ds @ [d]) = 10 * nat_of_digits ds + (d - 48)"
  by (simp add: nat_of_digits_def)

lemma nat_of_digits_digits10: "nat_of_digits (digits10 n) = n"
proof (induction n rule: digits10.induct)
  case (1 n)
  show ?case
  proof (cases "n < 10")
    case True
    then show ?thesis by (subst digits10.simps) (simp add: nat_of_digits_def)
  next
    case False
    with 1 show ?thesis by (subst digits10.simps) (simp add: nat_of_digits_snoc)
  qed
qed

lemma hd_digits10: "hd (digits10 n) = 48 \<longleftrightarrow> n = 0"
proof (induction n rule: digits10.induct)
  case (1 n)
  show ?case
  proof (cases "n < 10")
    case True
    then show ?thesis by (subst digits10.simps) simp
  next
    case False
    with 1 digits10_nonempty [of "n div 10"] show ?thesis
      by (subst digits10.simps) (simp add: hd_append)
  qed
qed

lemma digits10_0: "digits10 0 = [48]"
  by (subst digits10.simps) simp

lemma takeWhile_digits:
  assumes "\<forall>c \<in> set ds. is_digit c" and "case r of [] \<Rightarrow> True | c # _ \<Rightarrow> \<not> is_digit c"
  shows "takeWhile is_digit (ds @ r) = ds" and "dropWhile is_digit (ds @ r) = r"
  using assms by (auto simp: takeWhile_append dropWhile_append split: list.splits)

lemma match_fraction_none: "number_end r \<Longrightarrow> match_fraction r = (None, r)"
  by (auto simp: match_fraction_def number_end_def split: list.splits)

lemma match_exponent_none: "number_end r \<Longrightarrow> match_exponent r = (None, r)"
  by (auto simp: match_exponent_def number_end_def split: list.splits)

lemma match_digits:
  assumes ne: "number_end r"
  shows "match_number (digits10 n @ r) = Some (PInt (int n), r)"
    and "match_number (45 # digits10 n @ r) = Some (PInt (- int n), r)"
proof -
  obtain c t where ct: "digits10 n = c # t"
    using digits10_nonempty [of n] by (cases "digits10 n") auto
  have dig: "\<forall>c \<in> set (digits10 n). is_digit c" by (rule digits10_all_digits)
  have r: "case r of [] \<Rightarrow> True | c # _ \<Rightarrow> \<not> is_digit c"
    using ne by (auto simp: number_end_def split: list.splits)
  have c: "is_digit c" "c \<noteq> 45" using dig ct by (auto simp: is_digit_def)
  have ip: "(if c = 48 then ([c], t @ r)
             else (takeWhile is_digit (c # t @ r), dropWhile is_digit (c # t @ r)))
            = (digits10 n, r)"
  proof (cases "c = 48")
    case True
    then have "n = 0" using hd_digits10 [of n] ct by simp
    then have "t = []" using ct digits10_0 by simp
    with True ct show ?thesis by simp
  next
    case False
    then show ?thesis
      using takeWhile_digits [OF dig r] ct by simp
  qed
  show "match_number (digits10 n @ r) = Some (PInt (int n), r)"
    using c ip ne
    by (simp add: match_number_def ct match_fraction_none match_exponent_none number_value_def
                  nat_of_digits_digits10 [of n, unfolded ct] del: takeWhile.simps dropWhile.simps)
  show "match_number (45 # digits10 n @ r) = Some (PInt (- int n), r)"
    using c ip ne
    by (simp add: match_number_def ct match_fraction_none match_exponent_none number_value_def
                  nat_of_digits_digits10 [of n, unfolded ct] del: takeWhile.simps dropWhile.simps)
qed

lemma match_number_int_repr:
  "number_end r \<Longrightarrow> match_number (int_repr i @ r) = Some (PInt i, r)"
  using match_digits [of r "nat i"] match_digits [of r "nat (- i)"]
  by (simp add: int_repr_def)

lemma dvd_pow10_bound:
  fixes b :: nat
  assumes "b dvd 10 ^ k" and "b \<le> 2 ^ j"
  shows "b dvd 10 ^ j"
  using assms
proof (induction j arbitrary: b)
  case 0
  then have "b \<noteq> 0" by (metis dvd_0_left_iff power_not_zero zero_neq_numeral)
  with 0 show ?case by simp
next
  case (Suc j)
  show ?case
  proof (cases "b = 1")
    case True
    then show ?thesis by simp
  next
    case False
    define g where "g = gcd b 10"
    have b0: "b \<noteq> 0" using Suc.prems(1) by (metis dvd_0_left_iff power_not_zero zero_neq_numeral)
    have g1: "g \<noteq> 1"
    proof
      assume "g = 1"
      then have "coprime b 10" by (simp add: g_def coprime_iff_gcd_eq_1)
      then have "coprime b (10 ^ k)" by simp
      with Suc.prems(1) have "b = 1" by (metis coprime_absorb_left is_unit_gcd nat_dvd_1_iff_1 coprime_imp_gcd_eq_1 gcd_nat.absorb1)
      with False show False by simp
    qed
    have g0: "g \<noteq> 0" using b0 by (simp add: g_def)
    have g2: "2 \<le> g" using g0 g1 by simp
    have gb: "g dvd b" and g10: "g dvd 10" by (simp_all add: g_def)
    then obtain b' where b': "b = g * b'" by (auto elim: dvdE)
    have "b' dvd 10 ^ k" using Suc.prems(1) b' by (metis dvd_mult_right)
    moreover have "b' \<le> 2 ^ j"
    proof -
      have "2 * b' \<le> g * b'" using g2 by simp
      also have "\<dots> \<le> 2 ^ Suc j" using Suc.prems(2) b' by simp
      finally show ?thesis by simp
    qed
    ultimately have "b' dvd 10 ^ j" by (rule Suc.IH)
    with g10 have "g * b' dvd 10 * 10 ^ j" by (rule mult_dvd_mono)
    then show ?thesis by (simp add: b')
  qed
qed

lemma dvd_pow10_self:
  fixes b :: nat
  assumes "b dvd 10 ^ k"
  shows "b dvd 10 ^ b"
  using dvd_pow10_bound [OF assms, of b] by (simp add: less_imp_le)

lemma decimal_denominator:
  assumes "decimal q"
  shows "q * 10 ^ nat (snd (quotient_of q)) \<in> \<int>"
proof -
  obtain a b where ab: "quotient_of q = (a, b)" by (cases "quotient_of q")
  then have q: "q = of_int a / of_int b" and bpos: "0 < b" and cop: "coprime a b"
    using quotient_of_div quotient_of_denom_pos quotient_of_coprime by auto
  from assms obtain k z where z: "q * 10 ^ k = of_int z"
    by (auto simp: decimal_def Ints_def)
  have "rat_of_int (a * 10 ^ k) = rat_of_int (z * b)"
    using z bpos by (simp add: q field_simps)
  then have "a * 10 ^ k = z * b" by (simp only: of_int_eq_iff)
  then have "b dvd a * 10 ^ k" by simp
  with cop have "b dvd 10 ^ k"
    by (metis coprime_commute coprime_dvd_mult_right_iff)
  then have "nat b dvd nat (10 ^ k)" using bpos by (simp add: nat_dvd_iff)
  then have "nat b dvd 10 ^ k" by (simp add: nat_power_eq)
  then have "nat b dvd 10 ^ nat b" by (rule dvd_pow10_self)
  then obtain m where m: "10 ^ nat b = nat b * m" by (auto elim: dvdE)
  have "q * 10 ^ nat b = q * rat_of_nat (10 ^ nat b)" by simp
  also have "\<dots> = q * rat_of_nat (nat b * m)" by (simp only: m)
  also have "\<dots> = of_int a * of_nat m" using bpos by (simp add: q)
  finally show ?thesis using ab by simp
qed

lemma frac_digits_value:
  assumes "0 \<le> f" and "f < 1" and "f * 10 ^ k \<in> \<int>" and "k \<le> n"
  shows "(\<forall>c \<in> set (frac_digits n f). is_digit c)
       \<and> rat_of_nat (nat_of_digits (frac_digits n f)) / 10 ^ length (frac_digits n f) = f"
  using assms
proof (induction n arbitrary: f k)
  case 0
  then have "f \<in> \<int>" by simp
  with 0 have "f = 0" by (metis Ints_cases of_int_0_le_iff of_int_less_1_iff less_le_not_le zless_add1_eq add.left_neutral order_antisym of_int_0 less_imp_le zero_less_one)
  then show ?case by simp
next
  case (Suc n)
  show ?case
  proof (cases "f = 0")
    case True
    then show ?thesis by simp
  next
    case False
    define d where "d = \<lfloor>f * 10\<rfloor>"
    define f' where "f' = f * 10 - of_int d"
    have d0: "0 \<le> d" using Suc.prems(1) by (simp add: d_def)
    have d9: "d < 10" using Suc.prems(2) by (simp add: d_def floor_less_iff)
    have f'0: "0 \<le> f'" and f'1: "f' < 1" by (simp_all add: f'_def d_def) linarith
    have kpos: "k \<noteq> 0"
    proof
      assume "k = 0"
      with Suc.prems(3) have "f \<in> \<int>" by simp
      then obtain z where "f = of_int z" by (auto simp: Ints_def)
      with Suc.prems(1,2) have "f = 0" by simp
      with False show False by simp
    qed
    then obtain k' where k': "k = Suc k'" by (cases k) auto
    have "f' * 10 ^ k' = f * 10 ^ k - of_int d * 10 ^ k'"
      by (simp add: f'_def k' algebra_simps)
    then have f'int: "f' * 10 ^ k' \<in> \<int>" using Suc.prems(3) by simp
    have k'n: "k' \<le> n" using Suc.prems(4) k' by simp
    from Suc.IH [OF f'0 f'1 f'int k'n]
    have ih1: "\<forall>c \<in> set (frac_digits n f'). is_digit c"
      and ih2: "rat_of_nat (nat_of_digits (frac_digits n f')) / 10 ^ length (frac_digits n f') = f'"
      by simp_all
    have fd: "frac_digits (Suc n) f = (48 + nat d) # frac_digits n f'"
      using False by (simp add: d_def f'_def Let_def)
    have dd: "is_digit (48 + nat d)" using d0 d9 by (simp add: is_digit_def)
    have "rat_of_nat (nat_of_digits (frac_digits (Suc n) f)) / 10 ^ length (frac_digits (Suc n) f)
            = (rat_of_nat (nat d) * 10 ^ length (frac_digits n f')
               + rat_of_nat (nat_of_digits (frac_digits n f'))) / (10 * 10 ^ length (frac_digits n f'))"
      unfolding fd by (simp add: nat_of_digits_Cons)
    also have "\<dots> = rat_of_nat (nat d) / 10
                     + (rat_of_nat (nat_of_digits (frac_digits n f')) / 10 ^ length (frac_digits n f')) / 10"
      by (simp add: add_divide_distrib)
    also have "\<dots> = of_int d / 10 + f' / 10" using d0 by (simp add: ih2)
    also have "\<dots> = f" by (simp add: f'_def field_simps)
    finally show ?thesis using ih1 dd unfolding fd by simp
  qed
qed

lemma match_fraction_digits:
  assumes dig: "\<forall>c \<in> set ds. is_digit c" and ne: "ds \<noteq> []" and r: "number_end r"
  shows "match_fraction (46 # ds @ r) = (Some ds, r)"
proof -
  obtain d t where dt: "ds = d # t" using ne by (cases ds) auto
  have r': "case r of [] \<Rightarrow> True | c # _ \<Rightarrow> \<not> is_digit c"
    using r by (auto simp: number_end_def split: list.splits)
  have "takeWhile is_digit (ds @ r) = ds" "dropWhile is_digit (ds @ r) = r"
    using takeWhile_digits [OF dig r'] by simp_all
  then show ?thesis using dig dt
    by (simp add: match_fraction_def del: takeWhile.simps dropWhile.simps)
qed

lemma match_decimal:
  assumes dig: "\<forall>c \<in> set ds. is_digit c" and ne: "ds \<noteq> []" and r: "number_end r"
  shows "match_number (digits10 n @ 46 # ds @ r)
           = Some (PFloat (Finite (of_nat n + of_nat (nat_of_digits ds) / 10 ^ length ds)), r)"
    and "match_number (45 # digits10 n @ 46 # ds @ r)
           = Some (PFloat (Finite (- (of_nat n + of_nat (nat_of_digits ds) / 10 ^ length ds))), r)"
proof -
  let ?rest = "46 # ds @ r"
  obtain c t where ct: "digits10 n = c # t"
    using digits10_nonempty [of n] by (cases "digits10 n") auto
  have digs: "\<forall>c \<in> set (digits10 n). is_digit c" by (rule digits10_all_digits)
  have nd: "case ?rest of [] \<Rightarrow> True | c # _ \<Rightarrow> \<not> is_digit c"
    by (simp add: is_digit_def)
  have c: "is_digit c" "c \<noteq> 45" using digs ct by (auto simp: is_digit_def)
  have ip: "(if c = 48 then ([c], t @ ?rest)
             else (takeWhile is_digit (c # t @ ?rest), dropWhile is_digit (c # t @ ?rest)))
            = (digits10 n, ?rest)"
  proof (cases "c = 48")
    case True
    then have "n = 0" using hd_digits10 [of n] ct by simp
    then have "t = []" using ct digits10_0 by simp
    with True ct show ?thesis by simp
  next
    case False
    then show ?thesis
      using takeWhile_digits [OF digs nd] ct by simp
  qed
  have fr: "match_fraction ?rest = (Some ds, r)"
    by (rule match_fraction_digits [OF dig ne r])
  have ex: "match_exponent r = (None, r)" by (rule match_exponent_none [OF r])
  have nv: "nat_of_digits (c # t) = n" using nat_of_digits_digits10 [of n] ct by simp
  show "match_number (digits10 n @ 46 # ds @ r)
           = Some (PFloat (Finite (of_nat n + of_nat (nat_of_digits ds) / 10 ^ length ds)), r)"
    using c ip
    by (simp add: match_number_def ct fr ex number_value_def nv
             del: takeWhile.simps dropWhile.simps)
  show "match_number (45 # digits10 n @ 46 # ds @ r)
           = Some (PFloat (Finite (- (of_nat n + of_nat (nat_of_digits ds) / 10 ^ length ds))), r)"
    using c ip
    by (simp add: match_number_def ct fr ex number_value_def nv
             del: takeWhile.simps dropWhile.simps)
qed

lemma match_number_float_repr:
  assumes "decimal q" and r: "number_end r"
  shows "match_number (float_repr q @ r) = Some (PFloat (Finite q), r)"
proof -
  define a where "a = \<bar>q\<bar>"
  define ip where "ip = \<lfloor>a\<rfloor>"
  define f where "f = a - of_int ip"
  define n where "n = nat (snd (quotient_of q))"
  define fd where "fd = frac_digits n f"
  define ds where "ds = (if fd = [] then [48] else fd)"
  have a0: "0 \<le> a" by (simp add: a_def)
  have ip0: "0 \<le> ip" using a0 by (simp add: ip_def)
  have f0: "0 \<le> f" and f1: "f < 1" by (simp_all add: f_def ip_def) linarith
  have "q * 10 ^ n \<in> \<int>" unfolding n_def by (rule decimal_denominator [OF assms(1)])
  then have "a * 10 ^ n \<in> \<int>"
  proof (cases "q < 0")
    case True
    assume "q * 10 ^ n \<in> \<int>"
    then have "- (q * 10 ^ n) \<in> \<int>" by (rule Ints_minus)
    with True show ?thesis by (simp add: a_def)
  next
    case False
    assume "q * 10 ^ n \<in> \<int>"
    with False show ?thesis by (simp add: a_def)
  qed
  then have "a * 10 ^ n - of_int ip * 10 ^ n \<in> \<int>" by simp
  then have fint: "f * 10 ^ n \<in> \<int>" by (simp add: f_def algebra_simps)
  from frac_digits_value [OF f0 f1 fint order_refl]
  have fdd: "\<forall>c \<in> set fd. is_digit c"
    and fdv: "rat_of_nat (nat_of_digits fd) / 10 ^ length fd = f"
    by (simp_all add: fd_def)
  have dsd: "\<forall>c \<in> set ds. is_digit c" using fdd by (simp add: ds_def is_digit_def)
  have dsn: "ds \<noteq> []" by (simp add: ds_def)
  have dsv: "rat_of_nat (nat_of_digits ds) / 10 ^ length ds = f"
  proof (cases "fd = []")
    case True
    with fdv have "f = 0" by simp
    with True show ?thesis by (simp add: ds_def nat_of_digits_def)
  next
    case False
    with fdv show ?thesis by (simp add: ds_def)
  qed
  have val: "rat_of_nat (nat ip) + rat_of_nat (nat_of_digits ds) / 10 ^ length ds = a"
    using ip0 by (simp add: dsv f_def)
  have repr: "float_repr q = (if q < 0 then [45] else []) @ digits10 (nat ip) @ [46] @ ds"
    by (simp add: float_repr_def Let_def a_def ip_def f_def n_def fd_def ds_def)
  show ?thesis
  proof (cases "q < 0")
    case True
    then have "- a = q" by (simp add: a_def)
    with match_decimal(2) [OF dsd dsn r, of "nat ip"] val True show ?thesis
      by (simp add: repr)
  next
    case False
    then have "a = q" by (simp add: a_def)
    with match_decimal(1) [OF dsd dsn r, of "nat ip"] val False show ?thesis
      by (simp add: repr)
  qed
qed

lemma decimal_whole: "q \<in> \<int> \<Longrightarrow> decimal q"
  unfolding decimal_def by (rule exI [of _ 0]) simp

lemma decimal_py_round2: "decimal (py_round2 x)"
proof -
  have "py_round2 x * 10 ^ 2 \<in> \<int>" by (simp add: py_round2_def)
  then show ?thesis unfolding decimal_def by blast
qed

lemma float_repr_0: "float_repr 0 = ustr ''0.0''"
  by (simp add: float_repr_def digits10_0 ustr_def)


subsection \<open>Strings\<close>

lemma hex4_value:
  fixes n :: nat
  assumes "n < 65536"
  shows "((n div 4096 mod 16 * 16 + n div 256 mod 16) * 16 + n div 16 mod 16) * 16 + n mod 16 = n"
proof -
  define a where "a = n div 16"
  define b where "b = a div 16"
  define c where "c = b div 16"
  have b': "n div 256 = b" unfolding b_def a_def by (simp add: div_mult2_eq [symmetric])
  have c': "n div 4096 = c" unfolding c_def b_def a_def by (simp add: div_mult2_eq [symmetric])
  have c16: "c < 16" using assms unfolding c' [symmetric] by simp
  have 1: "n = 16 * a + n mod 16" unfolding a_def by simp
  have 2: "a = 16 * b + a mod 16" unfolding b_def by simp
  have 3: "b = 16 * c + b mod 16" unfolding c_def by simp
  have "((c mod 16 * 16 + b mod 16) * 16 + a mod 16) * 16 + n mod 16
          = 16 * (16 * (16 * c + b mod 16) + a mod 16) + n mod 16"
    using c16 by simp
  also have "\<dots> = n" using 1 2 3 by simp
  finally show ?thesis by (simp add: b' c' a_def)
qed

lemma surrogate_split:
  fixes n :: nat
  assumes "n < 1048576"
  shows "(n div 1024 mod 1024) * 1024 + n mod 1024 = n"
proof -
  have "n div 1024 < 1024" using assms by simp
  then have "n div 1024 mod 1024 = n div 1024" by simp
  then show ?thesis by simp
qed

lemma hexval_hexdigit: "d < 16 \<Longrightarrow> hexval (hexdigit d) = Some d"
  by (auto simp: hexval_def hexdigit_def)

lemma parse_hex4_hex4:
  assumes "n < 65536"
  shows "parse_hex4 (hex4 n @ r) = Some (n, r)"
proof -
  have d3: "n div 4096 mod 16 < 16" and d2: "n div 256 mod 16 < 16"
    and d1: "n div 16 mod 16 < 16" and d0: "n mod 16 < 16" by simp_all
  have v: "((n div 4096 mod 16 * 16 + n div 256 mod 16) * 16 + n div 16 mod 16) * 16 + n mod 16 = n"
    by (rule hex4_value [OF assms])
  have "parse_hex4 (hex4 n @ r)
          = Some (((n div 4096 mod 16 * 16 + n div 256 mod 16) * 16 + n div 16 mod 16) * 16
                  + n mod 16, r)"
    by (simp add: parse_hex4_def hex4_def hexval_hexdigit [OF d3] hexval_hexdigit [OF d2]
                  hexval_hexdigit [OF d1] hexval_hexdigit [OF d0])
  then show ?thesis by (simp only: v)
qed

lemma scanstring_escaped_char:
  assumes "c < 1114112" and "\<not> is_high_surrogate c"
  shows "scanstring (json_escape_char c @ r) = cons_char c (scanstring r)"
proof (cases "c = 34 \<or> c = 92 \<or> c = 10 \<or> c = 13 \<or> c = 9 \<or> c = 8 \<or> c = 12")
  case True
  then show ?thesis
    by (auto simp: json_escape_char_def decode_escape_def unescape_def)
next
  case special: False
  show ?thesis
  proof (cases "32 \<le> c \<and> c \<le> 126")
    case True
    with special show ?thesis by (simp add: json_escape_char_def)
  next
    case ctrl: False
    show ?thesis
    proof (cases "c < 65536")
      case True
      have e: "json_escape_char c = [92, 117] @ hex4 c"
        using special ctrl True by (simp add: json_escape_char_def)
      show ?thesis
        using parse_hex4_hex4 [OF True, of r] assms(2)
        by (simp add: e decode_escape_def)
    next
      case False
      define n where "n = c - 65536"
      define hi where "hi = 55296 + n div 1024 mod 1024"
      define lo where "lo = 56320 + n mod 1024"
      have n: "n < 1048576" using assms False by (simp add: n_def)
      have e: "json_escape_char c = [92, 117] @ hex4 hi @ [92, 117] @ hex4 lo"
        using special ctrl False by (simp add: json_escape_char_def Let_def n_def hi_def lo_def)
      have m1: "n div 1024 mod 1024 < 1024" and m2: "n mod 1024 < 1024" by simp_all
      have hi: "hi < 65536" "is_high_surrogate hi"
        using m1 by (simp_all add: hi_def is_high_surrogate_def)
      have lo: "lo < 65536" "is_low_surrogate lo"
        using m2 by (simp_all add: lo_def is_low_surrogate_def)
      have "join_surrogates hi lo = 65536 + ((n div 1024 mod 1024) * 1024 + n mod 1024)"
        by (simp add: join_surrogates_def hi_def lo_def)
      also have "\<dots> = 65536 + n" by (simp only: surrogate_split [OF n])
      also have "\<dots> = c" using False by (simp add: n_def)
      finally have j: "join_surrogates hi lo = c" .
      have 1: "parse_hex4 (hex4 hi @ [92, 117] @ hex4 lo @ r) = Some (hi, [92, 117] @ hex4 lo @ r)"
        by (rule parse_hex4_hex4 [OF hi(1)])
      have 2: "parse_hex4 (hex4 lo @ r) = Some (lo, r)"
        by (rule parse_hex4_hex4 [OF lo(1)])
      have "decode_escape (117 # hex4 hi @ [92, 117] @ hex4 lo @ r) = Inr (c, r)"
        using 1 2 hi(2) lo(2) j by (simp add: decode_escape_def decode_surrogate_def)
      then show ?thesis by (simp add: e)
    qed
  qed
qed

lemma decode_surrogate_alone:
  assumes "d < 1114112" and "\<not> is_low_surrogate d"
  shows "decode_surrogate c (json_escape_char d @ r) = Inr (c, json_escape_char d @ r)"
proof (cases "d = 34 \<or> d = 92 \<or> d = 10 \<or> d = 13 \<or> d = 9 \<or> d = 8 \<or> d = 12")
  case True
  then show ?thesis
    by (auto simp: json_escape_char_def decode_surrogate_def)
next
  case special: False
  show ?thesis
  proof (cases "32 \<le> d \<and> d \<le> 126")
    case True
    with special show ?thesis
      by (cases r) (simp_all add: json_escape_char_def decode_surrogate_def)
  next
    case ctrl: False
    show ?thesis
    proof (cases "d < 65536")
      case True
      have e: "json_escape_char d = [92, 117] @ hex4 d"
        using special ctrl True by (simp add: json_escape_char_def)
      show ?thesis
        using parse_hex4_hex4 [OF True, of r] assms(2)
        by (simp add: e decode_surrogate_def)
    next
      case False
      define n where "n = d - 65536"
      define hi where "hi = 55296 + n div 1024 mod 1024"
      define lo where "lo = 56320 + n mod 1024"
      have e: "json_escape_char d = [92, 117] @ hex4 hi @ [92, 117] @ hex4 lo"
        using special ctrl False by (simp add: json_escape_char_def Let_def n_def hi_def lo_def)
      have m1: "n div 1024 mod 1024 < 1024" by simp
      have hi: "hi < 65536" "\<not> is_low_surrogate hi"
        using m1 by (simp_all add: hi_def is_low_surrogate_def)
      have 1: "parse_hex4 (hex4 hi @ [92, 117] @ hex4 lo @ r) = Some (hi, [92, 117] @ hex4 lo @ r)"
        by (rule parse_hex4_hex4 [OF hi(1)])
      show ?thesis
        using 1 hi(2) by (simp add: e decode_surrogate_def)
    qed
  qed
qed

lemma decode_surrogate_quote: "decode_surrogate c (34 # r) = Inr (c, 34 # r)"
  by (cases r) (simp_all add: decode_surrogate_def)

lemma scanstring_high_surrogate:
  assumes "is_high_surrogate c" and "decode_surrogate c r = Inr (c, r)"
  shows "scanstring (json_escape_char c @ r) = cons_char c (scanstring r)"
proof -
  have c: "c < 65536" "\<not> (32 \<le> c \<and> c \<le> 126)"
    "\<not> (c = 34 \<or> c = 92 \<or> c = 10 \<or> c = 13 \<or> c = 9 \<or> c = 8 \<or> c = 12)"
    using assms(1) by (auto simp: is_high_surrogate_def)
  have e: "json_escape_char c = [92, 117] @ hex4 c"
    using c by (simp add: json_escape_char_def)
  show ?thesis
    using parse_hex4_hex4 [OF c(1), of r] assms
    by (simp add: e decode_escape_def)
qed

lemma scanstring_escaped:
  assumes "json_text s"
  shows "scanstring (concat (map json_escape_char s) @ 34 # r) = Inr (s, r)"
proof -
  have "(\<forall>c \<in> set s. c < 1114112) \<Longrightarrow> no_surrogate_pair s
          \<Longrightarrow> scanstring (concat (map json_escape_char s) @ 34 # r) = Inr (s, r)"
  proof (induction s rule: no_surrogate_pair.induct)
    case 1
    then show ?case by simp
  next
    case (2 c)
    have "scanstring (json_escape_char c @ 34 # r) = cons_char c (scanstring (34 # r))"
    proof (cases "is_high_surrogate c")
      case True
      then show ?thesis
        by (rule scanstring_high_surrogate) (rule decode_surrogate_quote)
    next
      case False
      with 2 show ?thesis by (simp add: scanstring_escaped_char)
    qed
    then show ?case by (simp add: cons_char_def)
  next
    case (3 c d s)
    let ?rest = "concat (map json_escape_char (d # s)) @ 34 # r"
    have ih: "scanstring ?rest = Inr (d # s, r)"
      using 3 by simp
    have "scanstring (json_escape_char c @ ?rest) = cons_char c (scanstring ?rest)"
    proof (cases "is_high_surrogate c")
      case True
      with "3.prems" have d: "d < 1114112" "\<not> is_low_surrogate d" by simp_all
      have "decode_surrogate c ?rest = Inr (c, ?rest)"
        using decode_surrogate_alone [OF d, of c "concat (map json_escape_char s) @ 34 # r"]
        by simp
      with True show ?thesis by (rule scanstring_high_surrogate)
    next
      case False
      with "3.prems" show ?thesis by (simp add: scanstring_escaped_char)
    qed
    with ih show ?case by (simp add: cons_char_def)
  qed
  with assms show ?thesis by (simp add: json_text_def)
qed

lemma scanstring_encode_string:
  assumes "json_text s"
  shows "scanstring (tl (encode_string s) @ r) = Inr (s, r)"
  using scanstring_escaped [OF assms, of r] by (simp add: encode_string_def)


subsection \<open>Values\<close>

lemma value_start_not_ws: "value_start c \<Longrightarrow> \<not> is_ws c"
  by (auto simp: value_start_def is_ws_def is_digit_def)

lemma digits10_start: "\<exists>c t. digits10 n = c # t \<and> is_digit c"
  using digits10_nonempty [of n] digits10_all_digits [of n]
  by (cases "digits10 n") auto

lemma int_repr_start: "\<exists>c t. int_repr i = c # t \<and> (c = 45 \<or> is_digit c)"
  using digits10_start [of "nat i"] by (auto simp: int_repr_def)

lemma float_repr_start: "\<exists>c t. float_repr q = c # t \<and> (c = 45 \<or> is_digit c)"
  using digits10_start [of "nat \<lfloor>\<bar>q\<bar>\<rfloor>"] by (auto simp: float_repr_def Let_def)

lemma encode_start: "\<exists>c t. encode v = c # t \<and> value_start c"
proof (cases v)
  case (PInt i)
  then show ?thesis using int_repr_start [of i] by (auto simp: value_start_def)
next
  case (PFloat x)
  show ?thesis
  proof (cases x)
    case (Finite q)
    with PFloat float_repr_start [of q] show ?thesis by (auto simp: value_start_def)
  qed (simp_all add: PFloat value_start_def ustr_def)
qed (auto simp: value_start_def ustr_def encode_string_def)

lemma skip_ws_start: "\<not> is_ws c \<Longrightarrow> skip_ws (c # t) = c # t"
  by (simp add: skip_ws_def)

lemma skip_ws_encode: "skip_ws (encode v @ r) = encode v @ r"
  using encode_start [of v] by (auto simp: skip_ws_start value_start_not_ws)

lemma skip_ws_space: "skip_ws (32 # t) = skip_ws t"
  by (simp add: skip_ws_def is_ws_def)

lemma parse_value_number:
  assumes "c = 45 \<or> is_digit c" and "match_number (c # t) = Some (v, r)"
  shows "parse_value (c # t) = Inr (v, r)"
  using assms
  by (subst parse_value.simps) (auto simp: is_digit_def starts_with_def ustr_def)

lemma parse_value_int:
  assumes "number_end r"
  shows "parse_value (int_repr i @ r) = Inr (PInt i, r)"
proof -
  obtain c t where ct: "int_repr i = c # t" "c = 45 \<or> is_digit c"
    using int_repr_start by blast
  have "match_number (c # t @ r) = Some (PInt i, r)"
    using match_number_int_repr [OF assms, of i] by (simp add: ct(1))
  from parse_value_number [OF ct(2) this] show ?thesis
    by (simp add: ct(1))
qed

lemma parse_value_float:
  assumes "number_end r" and "decimal q"
  shows "parse_value (float_repr q @ r) = Inr (PFloat (Finite q), r)"
proof -
  obtain c t where ct: "float_repr q = c # t" "c = 45 \<or> is_digit c"
    using float_repr_start by blast
  have "match_number (c # t @ r) = Some (PFloat (Finite q), r)"
    using match_number_float_repr [OF assms(2,1)] by (simp add: ct(1))
  from parse_value_number [OF ct(2) this] show ?thesis
    by (simp add: ct(1))
qed

lemma parse_value_string:
  assumes "json_text s"
  shows "parse_value (encode_string s @ r) = Inr (PStr s, r)"
  using scanstring_escaped [OF assms, of r]
  by (subst parse_value.simps) (simp add: encode_string_def)

lemma parse_value_literals:
  "parse_value (ustr ''null'' @ r) = Inr (PNone, r)"
  "parse_value (ustr ''true'' @ r) = Inr (PBool True, r)"
  "parse_value (ustr ''false'' @ r) = Inr (PBool False, r)"
  "parse_value (ustr ''NaN'' @ r) = Inr (PFloat NaN, r)"
  "parse_value (ustr ''Infinity'' @ r) = Inr (PFloat PosInf, r)"
  "parse_value (ustr ''-Infinity'' @ r) = Inr (PFloat NegInf, r)"
  by (subst parse_value.simps,
      simp add: ustr_def starts_with_def match_number_def is_digit_def)+

lemma number_end_delims [simp]:
  "number_end []" "number_end (44 # t)" "number_end (93 # t)" "number_end (125 # t)"
  by (simp_all add: number_end_def is_digit_def)

lemma encode_nonempty: "encode v \<noteq> []"
  using encode_start [of v] by auto

lemma join_Cons2: "xs \<noteq> [] \<Longrightarrow> join s (x # xs) = x @ s @ join s xs"
  by (cases xs) simp_all

lemma parse_array_elements:
  assumes "\<forall>x \<in> set xs. \<forall>r. number_end r \<longrightarrow> parse_value (encode x @ r) = Inr (x, r)"
    and "xs \<noteq> []"
  shows "parse_array (join (ustr '', '') (map encode xs) @ 93 # r) acc = Inr (PList (acc @ xs), r)"
  using assms
proof (induction xs arbitrary: acc)
  case Nil
  then show ?case by simp
next
  case (Cons x xs)
  have px: "parse_value (encode x @ r') = Inr (x, r')" if "number_end r'" for r'
    using Cons.prems(1) that by simp
  show ?case
  proof (cases "xs = []")
    case True
    have "parse_array (encode x @ 93 # r) acc = Inr (PList (acc @ [x]), r)"
      using encode_nonempty [of x]
      by (subst parse_array.simps) (simp add: px skip_ws_start is_ws_def)
    with True show ?thesis by simp
  next
    case False
    let ?rest = "join (ustr '', '') (map encode xs) @ 93 # r"
    obtain y ys where ys: "xs = y # ys" using False by (cases xs) auto
    have ih: "parse_array ?rest (acc @ [x]) = Inr (PList ((acc @ [x]) @ xs), r)"
      using Cons.IH [of "acc @ [x]"] Cons.prems(1) False by simp
    have st: "skip_ws ?rest = ?rest"
    proof -
      obtain c t where "encode y = c # t" "value_start c" using encode_start by blast
      then show ?thesis
        by (cases ys) (simp_all add: ys skip_ws_start value_start_not_ws)
    qed
    have j: "join (ustr '', '') (map encode (x # xs)) @ 93 # r = encode x @ 44 # 32 # ?rest"
      using False by (simp add: join_Cons2 ustr_def)
    have "parse_array (encode x @ 44 # 32 # ?rest) acc = parse_array ?rest (acc @ [x])"
      using encode_nonempty [of x]
      by (subst parse_array.simps)
         (simp add: px skip_ws_start [of 44] is_ws_def skip_ws_space st)
    with ih j show ?thesis by simp
  qed
qed

lemma encode_item_eq: "(\<lambda>(k, v). encode_string k @ ustr '': '' @ encode v) = encode_item"
  by (auto simp: encode_item_def)

lemma encode_item_start: "encode_item kv = 34 # tl (encode_item kv)"
  by (simp add: encode_item_def encode_string_def)

lemma tl_encode_item:
  "tl (encode_item kv) = tl (encode_string (fst kv)) @ 58 # 32 # encode (snd kv)"
  by (simp add: encode_item_def encode_string_def ustr_def)

lemma join_prefix: "\<exists>t. join s (x # xs) = x @ t"
  by (cases xs) auto

lemma join_items_start:
  "join s (map encode_item (kv # kvs)) = 34 # tl (join s (map encode_item (kv # kvs)))"
proof -
  obtain t where "join s (map encode_item (kv # kvs)) = encode_item kv @ t"
    using join_prefix [of s "encode_item kv" "map encode_item kvs"] by auto
  then show ?thesis using encode_item_start [of kv] by (metis append_Cons list.sel(3))
qed

lemma parse_object_items:
  assumes "\<forall>kv \<in> set kvs. json_text (fst kv)
             \<and> (\<forall>r. number_end r \<longrightarrow> parse_value (encode (snd kv) @ r) = Inr (snd kv, r))"
    and "kvs \<noteq> []"
  shows "parse_object (tl (join (ustr '', '') (map encode_item kvs)) @ 125 # r) acc
           = Inr (PDict (dict_of_pairs (acc @ kvs)), r)"
  using assms
proof (induction kvs arbitrary: acc)
  case Nil
  then show ?case by simp
next
  case (Cons kv kvs)
  obtain k v where kv: "kv = (k, v)" by (cases kv)
  have sc: "json_text k" using Cons.prems(1) kv by simp
  have pv: "parse_value (encode v @ r') = Inr (v, r')" if "number_end r'" for r'
    using Cons.prems(1) kv that by simp
  have key: "scanstring (tl (encode_string k) @ r') = Inr (k, r')" for r'
    by (rule scanstring_encode_string [OF sc])
  have ne: "tl (encode_string k) @ 58 # 32 # encode v @ r' \<noteq> []" for r' by simp
  show ?case
  proof (cases "kvs = []")
    case True
    have "parse_object (tl (encode_string k) @ 58 # 32 # encode v @ 125 # r) acc
            = Inr (PDict (dict_of_pairs (acc @ [(k, v)])), r)"
      using encode_nonempty [of v]
      by (subst parse_object.simps)
         (simp add: key skip_ws_start is_ws_def skip_ws_space skip_ws_encode pv)
    with True show ?thesis by (simp add: kv tl_encode_item)
  next
    case False
    let ?rest = "join (ustr '', '') (map encode_item kvs)"
    have ih: "parse_object (tl ?rest @ 125 # r) (acc @ [kv]) = Inr (PDict (dict_of_pairs ((acc @ [kv]) @ kvs)), r)"
      using Cons.IH [of "acc @ [kv]"] Cons.prems(1) False by simp
    obtain kv' kvs' where kvs: "kvs = kv' # kvs'" using False by (cases kvs) auto
    have rest: "?rest = 34 # tl ?rest"
      unfolding kvs by (rule join_items_start)
    have j: "tl (join (ustr '', '') (map encode_item (kv # kvs))) @ 125 # r
               = tl (encode_string k) @ 58 # 32 # encode v @ 44 # 32 # 34 # tl ?rest @ 125 # r"
    proof -
      have "join (ustr '', '') (map encode_item (kv # kvs)) = encode_item kv @ 44 # 32 # ?rest"
        using False by (simp add: join_Cons2 ustr_def)
      then have "tl (join (ustr '', '') (map encode_item (kv # kvs)))
                   = tl (encode_item kv) @ 44 # 32 # ?rest"
        using encode_item_start [of kv] by (metis append_Cons list.sel(3))
      also have "\<dots> = tl (encode_string k) @ 58 # 32 # encode v @ 44 # 32 # 34 # tl ?rest"
        using rest by (simp add: tl_encode_item kv)
      finally show ?thesis by simp
    qed
    have "parse_object (tl (encode_string k) @ 58 # 32 # encode v @ 44 # 32 # 34 # tl ?rest @ 125 # r) acc
            = parse_object (tl ?rest @ 125 # r) (acc @ [(k, v)])"
      using encode_nonempty [of v]
      by (subst parse_object.simps)
         (simp add: key skip_ws_start is_ws_def skip_ws_space skip_ws_encode pv)
    with ih j show ?thesis by (simp add: kv)
  qed
qed

lemma update_fresh: "k \<notin> fst ` set al \<Longrightarrow> AList.update k v al = al @ [(k, v)]"
  by (induction al) auto

lemma foldl_update_distinct:
  assumes "distinct (map fst (al @ kvs))"
  shows "foldl (\<lambda>d (k, v). AList.update k v d) al kvs = al @ kvs"
  using assms
proof (induction kvs arbitrary: al)
  case Nil
  then show ?case by simp
next
  case (Cons kv kvs)
  obtain k v where kv: "kv = (k, v)" by (cases kv)
  have "k \<notin> fst ` set al" using Cons.prems kv by auto
  then have u: "AList.update k v al = al @ [(k, v)]" by (rule update_fresh)
  have "distinct (map fst ((al @ [(k, v)]) @ kvs))" using Cons.prems kv by simp
  from Cons.IH [OF this] show ?case by (simp add: kv u)
qed

lemma dict_of_pairs_distinct: "distinct (map fst kvs) \<Longrightarrow> dict_of_pairs kvs = kvs"
  using foldl_update_distinct [of "[]" kvs] by (simp add: dict_of_pairs_def)

lemma parse_value_encode:
  "json_value v \<Longrightarrow> number_end r \<Longrightarrow> parse_value (encode v @ r) = Inr (v, r)"
proof (induction v arbitrary: r)
  case PNone
  then show ?case by (simp add: parse_value_literals)
next
  case (PBool b)
  then show ?case by (simp add: parse_value_literals)
next
  case (PInt i)
  then show ?case by (simp add: parse_value_int)
next
  case (PFloat x)
  then show ?case by (cases x) (simp_all add: parse_value_float parse_value_literals)
next
  case (PStr s)
  then show ?case by (simp add: parse_value_string)
next
  case (PList xs)
  show ?case
  proof (cases "xs = []")
    case True
    then show ?thesis
      by (subst parse_value.simps) (simp add: skip_ws_start is_ws_def)
  next
    case False
    let ?body = "join (ustr '', '') (map encode xs) @ 93 # r"
    have elems: "\<forall>x \<in> set xs. \<forall>r. number_end r \<longrightarrow> parse_value (encode x @ r) = Inr (x, r)"
      using PList by simp
    obtain x ys where xs: "xs = x # ys" using False by (cases xs) auto
    obtain c t where ct: "encode x = c # t" "value_start c" using encode_start by blast
    obtain t' where body: "?body = c # t'"
      using join_prefix [of "ustr '', ''" "encode x" "map encode ys"] ct(1) by (auto simp: xs)
    have c: "\<not> is_ws c" "c \<noteq> 93"
      using ct(2) by (auto simp: value_start_def is_ws_def is_digit_def)
    have "parse_value (91 # ?body) = parse_array ?body []"
      unfolding body using c by (subst parse_value.simps) (simp add: skip_ws_start)
    also have "\<dots> = Inr (PList xs, r)"
      using parse_array_elements [OF elems False, of r "[]"] by simp
    finally show ?thesis by simp
  qed
next
  case (PDict kvs)
  have d: "distinct (map fst kvs)" using PDict.prems(1) by simp
  show ?case
  proof (cases "kvs = []")
    case True
    then show ?thesis
      by (subst parse_value.simps) (simp add: skip_ws_start is_ws_def)
  next
    case False
    let ?items = "join (ustr '', '') (map encode_item kvs)"
    have items: "\<forall>kv \<in> set kvs. json_text (fst kv)
             \<and> (\<forall>r. number_end r \<longrightarrow> parse_value (encode (snd kv) @ r) = Inr (snd kv, r))"
    proof
      fix kv assume m: "kv \<in> set kvs"
      obtain k v where kv: "kv = (k, v)" by (cases kv)
      have w: "json_text k \<and> json_value v" using PDict.prems(1) m kv by auto
      have "v \<in> Basic_BNFs.snds kv" by (simp add: kv)
      from PDict.IH [OF m this] w
      have "\<forall>r. number_end r \<longrightarrow> parse_value (encode v @ r) = Inr (v, r)" by simp
      with w show "json_text (fst kv)
             \<and> (\<forall>r. number_end r \<longrightarrow> parse_value (encode (snd kv) @ r) = Inr (snd kv, r))"
        by (simp add: kv)
    qed
    obtain kv ys where kvs: "kvs = kv # ys" using False by (cases kvs) auto
    have st: "?items = 34 # tl ?items" unfolding kvs by (rule join_items_start)
    have "parse_value (123 # 34 # tl ?items @ 125 # r) = parse_object (tl ?items @ 125 # r) []"
      by (subst parse_value.simps) (simp add: skip_ws_start is_ws_def)
    also have "\<dots> = Inr (PDict (dict_of_pairs kvs), r)"
      using parse_object_items [OF items False, of r "[]"] by simp
    finally have "parse_value (123 # ?items @ 125 # r) = Inr (PDict kvs, r)"
      using st d by (metis append_Cons dict_of_pairs_distinct)
    then show ?thesis by (simp add: encode_item_eq)
  qed
qed

lemma json_round_trip:
  assumes "json_value v"
  shows "json_loads (json_dumps v) = Inr v"
proof -
  obtain c t where ct: "encode v = c # t" "value_start c" using encode_start by blast
  have "c \<noteq> 65279" using ct(2) by (auto simp: value_start_def is_digit_def)
  then have bom: "\<not> starts_with [65279] (encode v)" by (simp add: starts_with_def ct(1))
  have "parse_value (encode v @ []) = Inr (v, [])"
    by (rule parse_value_encode [OF assms]) simp
  then show ?thesis
    using bom skip_ws_encode [of v "[]"]
    by (simp add: json_loads_def json_dumps_def skip_ws_def)
qed


section \<open>Text produced by the resolver\<close>

lemma unicode_text_simps [simp]:
  "unicode_text []"
  "unicode_text (c # s) \<longleftrightarrow> scalar c \<and> unicode_text s"
  "unicode_text (s @ t) \<longleftrightarrow> unicode_text s \<and> unicode_text t"
  by (auto simp: unicode_text_def)

lemma scalar_of_char [simp]: "scalar (of_char c)"
proof -
  have "(of_char c :: nat) mod 256 < 256" by simp
  then have "(of_char c :: nat) < 256" by (simp only: of_char_mod_256)
  then show ?thesis unfolding scalar_def by linarith
qed

lemma unicode_text_ustr [simp]: "unicode_text (ustr s)"
  by (simp add: unicode_text_def ustr_def)

lemma scalar_digit: "is_digit c \<Longrightarrow> scalar c"
  by (simp add: is_digit_def scalar_def)

lemma unicode_text_digits: "\<forall>c \<in> set s. is_digit c \<Longrightarrow> unicode_text s"
  by (simp add: unicode_text_def scalar_digit)

lemma unicode_text_digits10 [simp]: "unicode_text (digits10 n)"
  by (rule unicode_text_digits) (rule digits10_all_digits)

lemma unicode_text_int_repr [simp]: "unicode_text (int_repr i)"
  by (simp add: int_repr_def scalar_def)

lemma frac_digits_all_digits:
  "0 \<le> f \<Longrightarrow> f < 1 \<Longrightarrow> \<forall>c \<in> set (frac_digits n f). is_digit c"
proof (induction n arbitrary: f)
  case 0
  then show ?case by simp
next
  case (Suc n)
  define d where "d = \<lfloor>f * 10\<rfloor>"
  define f' where "f' = f * 10 - of_int d"
  have d0: "0 \<le> d" using Suc.prems(1) by (simp add: d_def)
  have d9: "d < 10" using Suc.prems(2) by (simp add: d_def floor_less_iff)
  have f': "0 \<le> f'" "f' < 1" by (simp_all add: f'_def d_def) linarith
  have "is_digit (48 + nat d)" using d0 d9 by (simp add: is_digit_def)
  with Suc.IH [OF f'] show ?case
    by (simp add: Let_def d_def f'_def)
qed

lemma unicode_text_float_repr [simp]: "unicode_text (float_repr q)"
proof -
  define a where "a = \<bar>q\<bar>"
  have f: "0 \<le> a - of_int \<lfloor>a\<rfloor>" "a - of_int \<lfloor>a\<rfloor> < 1" by linarith+
  have "unicode_text (frac_digits n (a - of_int \<lfloor>a\<rfloor>))" for n
    by (rule unicode_text_digits) (rule frac_digits_all_digits [OF f])
  then show ?thesis
    by (simp add: float_repr_def Let_def a_def scalar_def)
qed

lemma scalar_hexdigit: "scalar (hexdigit d)" if "d < 16"
  using that by (simp add: hexdigit_def scalar_def)

lemma unicode_text_repr_char: "scalar q \<Longrightarrow> scalar c \<Longrightarrow> unicode_text (repr_char q c)"
  by (simp add: repr_char_def scalar_hexdigit) (simp add: scalar_def)

lemma unicode_text_concat: "(\<forall>x \<in> set xs. unicode_text x) \<Longrightarrow> unicode_text (concat xs)"
  by (induction xs) simp_all

lemma unicode_text_str_repr: "unicode_text s \<Longrightarrow> unicode_text (str_repr s)"
proof -
  assume s: "unicode_text s"
  define q :: nat where "q = (if 39 \<in> set s \<and> 34 \<notin> set s then 34 else 39)"
  have q: "scalar q" by (simp add: q_def scalar_def)
  have "unicode_text (concat (map (repr_char q) s))"
  proof (rule unicode_text_concat, rule ballI)
    fix x assume "x \<in> set (map (repr_char q) s)"
    then obtain c where c: "c \<in> set s" "x = repr_char q c" by auto
    from c(1) s have "scalar c" by (simp add: unicode_text_def)
    with q show "unicode_text x" unfolding c(2) by (rule unicode_text_repr_char)
  qed
  with q have "unicode_text ([q] @ concat (map (repr_char q) s) @ [q])" by simp
  then show ?thesis by (simp only: str_repr_def Let_def q_def)
qed

lemma unicode_text_join:
  "unicode_text s \<Longrightarrow> (\<forall>x \<in> set xs. unicode_text x) \<Longrightarrow> unicode_text (join s xs)"
proof (induction s xs rule: join.induct)
  case (1 sep)
  then show ?case by simp
next
  case (2 sep x)
  then show ?case by simp
next
  case (3 sep x y ys)
  then have "unicode_text (join sep (y # ys))" by simp
  with 3 show ?case by simp
qed

lemma unicode_text_py_repr: "wf_json v \<Longrightarrow> unicode_text (py_repr v)"
proof (induction v)
  case (PFloat x)
  then show ?case by (cases x) simp_all
next
  case (PStr s)
  then show ?case by (simp add: unicode_text_str_repr)
next
  case (PList xs)
  then have "\<forall>x \<in> set (map py_repr xs). unicode_text x" by simp
  then show ?case by (simp add: unicode_text_join scalar_def)
next
  case (PDict kvs)
  have "\<forall>x \<in> set (map (\<lambda>(k, v). str_repr k @ ustr '': '' @ py_repr v) kvs). unicode_text x"
  proof
    fix x assume "x \<in> set (map (\<lambda>(k, v). str_repr k @ ustr '': '' @ py_repr v) kvs)"
    then obtain k v where kv: "(k, v) \<in> set kvs" and x: "x = str_repr k @ ustr '': '' @ py_repr v"
      by auto
    have "unicode_text k" "wf_json v" using PDict.prems kv by auto
    moreover have "v \<in> Basic_BNFs.snds (k, v)" by simp
    ultimately show "unicode_text x"
      using PDict.IH [OF kv] by (simp add: x unicode_text_str_repr)
  qed
  then show ?case by (simp add: unicode_text_join scalar_def)
qed (simp_all add: scalar_def)

lemma unicode_text_py_str: "wf_json v \<Longrightarrow> unicode_text (py_str v)"
  using unicode_text_py_repr [of v] by (cases v) (simp_all add: py_str_def)

lemma unicode_text_type_name [simp]: "unicode_text (type_name v)"
  by (cases v) simp_all

lemma wf_json_map_of:
  "wf_json (PDict kvs) \<Longrightarrow> map_of kvs k = Some v \<Longrightarrow> wf_json v"
  by (auto dest!: map_of_SomeD)

lemma getitem_str_wf:
  assumes "wf_json obj" and "getitem_str obj k = Inr v"
  shows "wf_json v"
proof (cases obj)
  case (PDict kvs)
  with assms(2) have "map_of kvs k = Some v"
    by (simp add: getitem_str_def split: option.splits)
  with assms(1) PDict show ?thesis by (simp only: wf_json_map_of)
qed (use assms(2) in \<open>simp_all add: getitem_str_def not_subscriptable_def\<close>)

lemma getitem_str_error:
  "unicode_text k \<Longrightarrow> getitem_str obj k = Inl e \<Longrightarrow> unicode_text (exn_str e)"
  by (cases obj)
     (auto simp: getitem_str_def not_subscriptable_def scalar_def unicode_text_str_repr
           split: option.splits)

lemma getitem_first_wf:
  "wf_json obj \<Longrightarrow> getitem_first obj = Inr v \<Longrightarrow> wf_json v"
  by (cases obj) (auto simp: getitem_first_def not_subscriptable_def split: list.splits)

lemma getitem_first_error:
  "getitem_first obj = Inl e \<Longrightarrow> unicode_text (exn_str e)"
  by (cases obj)
     (auto simp: getitem_first_def not_subscriptable_def scalar_def int_repr_def
           split: list.splits)

lemma instance_type_of_wf:
  assumes "wf_json r"
  shows "case instance_type_of r of Inl e \<Rightarrow> unicode_text (exn_str e) | Inr t \<Rightarrow> wf_json t"
proof -
  have k: "unicode_text (ustr s)" for s by simp
  note ge = getitem_str_error [OF k] and gw = getitem_str_wf
  show ?thesis
  proof (cases "getitem_str r (ustr ''Reservations'')")
    case (Inl e)
    then show ?thesis using ge [OF Inl] by (simp add: instance_type_of_def)
  next
    case r1: (Inr reservations)
    have w1: "wf_json reservations" by (rule gw [OF assms r1])
    show ?thesis
    proof (cases "getitem_first reservations")
      case (Inl e)
      then show ?thesis using getitem_first_error [OF Inl] by (simp add: instance_type_of_def r1)
    next
      case r2: (Inr reservation)
      have w2: "wf_json reservation" by (rule getitem_first_wf [OF w1 r2])
      show ?thesis
      proof (cases "getitem_str reservation (ustr ''Instances'')")
        case (Inl e)
        then show ?thesis using ge [OF Inl] by (simp add: instance_type_of_def r1 r2)
      next
        case r3: (Inr instances)
        have w3: "wf_json instances" by (rule gw [OF w2 r3])
        show ?thesis
        proof (cases "getitem_first instances")
          case (Inl e)
          then show ?thesis
            using getitem_first_error [OF Inl] by (simp add: instance_type_of_def r1 r2 r3)
        next
          case r4: (Inr inst)
          have w4: "wf_json inst" by (rule getitem_first_wf [OF w3 r4])
          show ?thesis
          proof (cases "getitem_str inst (ustr ''InstanceType'')")
            case (Inl e)
            then show ?thesis using ge [OF Inl] by (simp add: instance_type_of_def r1 r2 r3 r4)
          next
            case (Inr t)
            then show ?thesis using gw [OF w4 Inr] by (simp add: instance_type_of_def r1 r2 r3 r4)
          qed
        qed
      qed
    qed
  qed
qed

lemma dict_get_error: "dict_get obj k d = Inl e \<Longrightarrow> unicode_text (exn_str e)"
  by (cases obj) (auto simp: dict_get_def scalar_def split: option.splits)

lemma py_iter_error: "py_iter v = Inl e \<Longrightarrow> unicode_text (exn_str e)"
  by (cases v) (auto simp: not_iterable_def scalar_def)

lemma py_len_error: "py_len v = Inl e \<Longrightarrow> unicode_text (exn_str e)"
  by (cases v) (auto simp: scalar_def)

lemma py_add_error: "py_add a b = Inl e \<Longrightarrow> unicode_text (exn_str e)"
  by (auto simp: py_add_def scalar_def split: option.splits sum.splits)

lemma py_truediv_error: "py_truediv a n = Inl e \<Longrightarrow> unicode_text (exn_str e)"
  by (auto simp: py_truediv_def scalar_def split: option.splits if_splits sum.splits)

lemma sum_averages_error: "sum_averages acc ps = Inl e \<Longrightarrow> unicode_text (exn_str e)"
proof (induction ps arbitrary: acc)
  case Nil
  then show ?case by simp
next
  case (Cons p ps)
  have k: "unicode_text (ustr ''Average'')" by simp
  from Cons show ?case
    by (auto split: sum.splits dest: getitem_str_error [OF k] py_add_error)
qed

lemma cpu_average_of_error: "cpu_average_of cw = Inl e \<Longrightarrow> unicode_text (exn_str e)"
  by (auto simp: cpu_average_of_def split: sum.splits if_splits
           dest: dict_get_error py_iter_error py_len_error py_truediv_error sum_averages_error)

lemma sum_averages_finite:
  assumes "\<forall>p \<in> set ps. wf_json p"
    and "as_number acc = Some x" and "to_float x = Finite a"
    and "sum_averages acc ps = Inr y"
  shows "\<exists>z b. as_number y = Some z \<and> to_float z = Finite b"
  using assms
proof (induction ps arbitrary: acc x a)
  case Nil
  then show ?case by simp
next
  case (Cons p ps)
  from Cons.prems(4) obtain v acc' where
    v: "getitem_str p (ustr ''Average'') = Inr v" and
    add: "py_add acc v = Inr acc'" and
    rest: "sum_averages acc' ps = Inr y"
    by (auto split: sum.splits)
  have "wf_json p" using Cons.prems(1) by simp
  then have wv: "wf_json v" using getitem_str_wf [of p "ustr ''Average''"] v by simp
  from add obtain n where n: "as_number v = Some n"
    by (cases x) (auto simp: py_add_def Cons.prems(2) split: option.splits)
  have "\<exists>c. to_float n = Finite c"
  proof (cases n)
    case (Inl i)
    then show ?thesis by simp
  next
    case (Inr f)
    with n have "v = PFloat f" by (cases v) (auto split: if_splits)
    with wv have "finite_float f" by simp
    then show ?thesis using Inr by (cases f) simp_all
  qed
  then obtain c where c: "to_float n = Finite c" ..
  have "\<exists>z b. as_number acc' = Some z \<and> to_float z = Finite b"
    using add n c Cons.prems(2,3)
    by (cases x; cases n) (auto simp: py_add_def)
  then obtain z b where "as_number acc' = Some z" "to_float z = Finite b" by blast
  from Cons.IH [OF _ this rest] Cons.prems(1) show ?case by simp
qed

lemma cpu_average_of_finite:
  assumes "wf_json cw" and "cpu_average_of cw = Inr a"
  shows "\<exists>q. a = Finite q"
proof -
  obtain dps where dps: "dict_get cw (ustr ''Datapoints'') (PList []) = Inr dps"
    using assms(2) by (auto simp: cpu_average_of_def split: sum.splits)
  have wd: "wf_json dps"
    using dps assms(1) by (cases cw) (auto simp: dict_get_def split: option.splits dest!: map_of_SomeD)
  show ?thesis
  proof (cases "py_truthy dps")
    case False
    then show ?thesis using assms(2) by (auto simp: cpu_average_of_def dps)
  next
    case True
    with assms(2) obtain ps tot n where
      ps: "py_iter dps = Inr ps" and tot: "sum_averages (PInt 0) ps = Inr tot" and
      n: "py_len dps = Inr n" and a: "py_truediv tot n = Inr a"
      by (auto simp: cpu_average_of_def dps split: sum.splits)
    have "\<forall>p \<in> set ps. wf_json p"
      using ps wd by (cases dps) (fastforce simp: unicode_text_def)+
    from sum_averages_finite [OF this _ _ tot, of "Inl 0" 0]
    obtain z b where "as_number tot = Some z" "to_float z = Finite b" by auto
    with a show ?thesis by (auto simp: py_truediv_def split: if_splits)
  qed
qed

lemma wf_success_summary:
  assumes "wf_json iid" and "wf_json t"
  shows "wf_json (success_summary iid t (Finite a))"
  using assms unicode_text_py_str [of iid] unicode_text_py_str [of t]
  by (simp add: success_summary_def decimal_py_round2)

lemma wf_failure_summary:
  assumes "wf_json iid" and "unicode_text (exn_str e)"
  shows "wf_json (failure_summary iid e)"
  using assms unicode_text_py_str [of iid]
  by (simp add: failure_summary_def)

lemma wf_resolver_summary:
  assumes iid: "wf_json iid"
    and d: "case describe_instances w [iid] of
              Inl e \<Rightarrow> unicode_text (exn_str e) | Inr r \<Rightarrow> wf_json r"
    and m: "case get_metric_statistics w (metric_query (now w) iid) of
              Inl e \<Rightarrow> unicode_text (exn_str e) | Inr r \<Rightarrow> wf_json r"
  shows "wf_json (fst (get_ec2_cpu_utilization w iid))"
proof (cases "describe_instances w [iid]")
  case (Inl e)
  with d have "unicode_text (exn_str e)" by simp
  then show ?thesis
    using Inl by (simp add: get_ec2_cpu_utilization_def try_body_def wf_failure_summary [OF iid])
next
  case dr: (Inr r)
  with d have r: "wf_json r" by simp
  show ?thesis
  proof (cases "instance_type_of r")
    case (Inl e)
    with instance_type_of_wf [OF r] have "unicode_text (exn_str e)" by simp
    then show ?thesis
      using Inl dr
      by (simp add: get_ec2_cpu_utilization_def try_body_def wf_failure_summary [OF iid])
  next
    case tr: (Inr t)
    with instance_type_of_wf [OF r] have t: "wf_json t" by simp
    show ?thesis
    proof (cases "get_metric_statistics w (metric_query (now w) iid)")
      case (Inl e)
      with m have "unicode_text (exn_str e)" by simp
      then show ?thesis
        using Inl dr tr
        by (simp add: get_ec2_cpu_utilization_def try_body_def Let_def
                      wf_failure_summary [OF iid])
    next
      case mr: (Inr cw)
      with m have cw: "wf_json cw" by simp
      show ?thesis
      proof (cases "cpu_average_of cw")
        case (Inl e)
        then have "unicode_text (exn_str e)" by (rule cpu_average_of_error)
        then show ?thesis
          using Inl dr tr mr
          by (simp add: get_ec2_cpu_utilization_def try_body_def Let_def
                        wf_failure_summary [OF iid])
      next
        case (Inr a)
        with cpu_average_of_finite [OF cw] obtain q where "a = Finite q" by blast
        with Inr show ?thesis
          using dr tr mr
          by (simp add: get_ec2_cpu_utilization_def try_body_def Let_def
                        wf_success_summary [OF iid t])
      qed
    qed
  qed
qed


lemma no_surrogate_pair_scalar: "\<forall>c \<in> set s. scalar c \<Longrightarrow> no_surrogate_pair s"
  by (induction s rule: no_surrogate_pair.induct) (auto simp: scalar_def is_high_surrogate_def)

lemma unicode_text_json_text: "unicode_text s \<Longrightarrow> json_text s"
  using no_surrogate_pair_scalar [of s]
  by (auto simp: unicode_text_def json_text_def scalar_def)

lemma finite_float_json_float: "finite_float x \<Longrightarrow> json_float x"
  by (cases x) simp_all

lemma wf_json_json_value: "wf_json v \<Longrightarrow> json_value v"
  by (induction v) (auto simp: unicode_text_json_text finite_float_json_float)

lemma json_value_resolver_summary:
  assumes "wf_json iid"
    and "case describe_instances w [iid] of
           Inl e \<Rightarrow> unicode_text (exn_str e) | Inr r \<Rightarrow> wf_json r"
    and "case get_metric_statistics w (metric_query (now w) iid) of
           Inl e \<Rightarrow> unicode_text (exn_str e) | Inr r \<Rightarrow> wf_json r"
  shows "json_value (fst (get_ec2_cpu_utilization w iid))"
  by (rule wf_json_json_value) (rule wf_resolver_summary [OF assms])


section \<open>Properties of the resolver\<close>

subsection \<open>The average\<close>







lemma try_body_metrics_called:
  assumes "GetMetricStatistics q \<in> set (snd (try_body w iid))"
  shows "q = metric_query (now w) iid \<and>
         (\<exists>resp t. describe_instances w [iid] = Inr resp \<and> instance_type_of resp = Inr t)"
  using assms
  by (auto simp: try_body_def Let_def split: sum.splits)

lemma resolver_effects:
  "GetMetricStatistics q \<in> set (snd (get_ec2_cpu_utilization w iid))
     \<longleftrightarrow> GetMetricStatistics q \<in> set (snd (try_body w iid))"
  by (auto simp: get_ec2_cpu_utilization_def split: prod.splits sum.splits)



text \<open>
  Claim C2. When the metrics collaborator has been called and has returned no datapoint
  (an empty list, or a response without the key), the summary has the success shape, with
  \<^verbatim>\<open>average_cpu_utilization_24h\<close> equal to \<open>0.0\<close> and no \<^verbatim>\<open>error\<close> field.
\<close>

theorem empty_datapoints_give_zero:
  assumes called: "GetMetricStatistics q \<in> set (snd (get_ec2_cpu_utilization w iid))"
    and ret: "get_metric_statistics w q = Inr cw"
    and dps: "dict_get cw (ustr ''Datapoints'') (PList []) = Inr (PList [])"
  shows "getitem_str (fst (get_ec2_cpu_utilization w iid)) (ustr ''average_cpu_utilization_24h'')
           = Inr (PFloat (Finite 0))
         \<and> dict_keys (fst (get_ec2_cpu_utilization w iid)) = Some success_fields
         \<and> ustr ''error'' \<notin> set success_fields"
proof -
  from called have c: "GetMetricStatistics q \<in> set (snd (try_body w iid))"
    by (simp add: resolver_effects)
  from try_body_metrics_called [OF c] obtain resp t where
    q: "q = metric_query (now w) iid" and
    d: "describe_instances w [iid] = Inr resp" and t: "instance_type_of resp = Inr t"
    by blast
  have avg: "cpu_average_of cw = Inr (Finite 0)"
    by (simp add: cpu_average_of_def dps)
  have r0: "py_round2 0 = 0"
    by (simp add: py_round2_def round_half_even_def)
  have "try_body w iid = (Inr (success_summary iid t (Finite 0)),
                          [DescribeInstances [iid], GetMetricStatistics q])"
    using ret avg by (simp add: try_body_def d t q Let_def)
  then show ?thesis
    by (simp add: get_ec2_cpu_utilization_def success_summary_def getitem_str_def r0
                  success_fields_def)
qed

theorem empty_datapoints_give_zero_witness:
  "getitem_str (fst (get_ec2_cpu_utilization (scenario_env (PList [])) (PStr (ustr ''i-123''))))
               (ustr ''average_cpu_utilization_24h'') = Inr (PFloat (Finite 0))
   \<and> dict_keys (fst (get_ec2_cpu_utilization (scenario_env (PList [])) (PStr (ustr ''i-123''))))
       = Some success_fields"
proof -
  let ?w = "scenario_env (PList [])"
  let ?iid = "PStr (ustr ''i-123'')"
  let ?q = "metric_query (now ?w) ?iid"
  have 1: "GetMetricStatistics ?q \<in> set (snd (get_ec2_cpu_utilization ?w ?iid))"
    by (simp add: resolver_defs scenario_defs py_round2_0)
  have 2: "get_metric_statistics ?w ?q = Inr (PDict [(ustr ''Datapoints'', PList [])])"
    by (simp add: resolver_defs scenario_defs)
  have 3: "dict_get (PDict [(ustr ''Datapoints'', PList [])]) (ustr ''Datapoints'') (PList [])
             = Inr (PList [])"
    by (simp add: dict_get_def)
  from empty_datapoints_give_zero [OF 1 2 3] show ?thesis by simp
qed


subsection \<open>The two shapes of the summary\<close>


lemma resolver_result:
  "fst (get_ec2_cpu_utilization w iid) =
     (case fst (try_body w iid) of Inr v \<Rightarrow> v | Inl e \<Rightarrow> failure_summary iid e)"
  by (simp add: get_ec2_cpu_utilization_def split: prod.splits sum.splits)






subsection \<open>The descriptor fetch\<close>

lemma describe_once:
  "filter is_describe (snd (get_ec2_cpu_utilization w iid)) = [DescribeInstances [iid]]"
  by (auto simp: get_ec2_cpu_utilization_def try_body_def Let_def is_describe_def
           split: sum.splits)

lemma instance_type_first_record:
  assumes "getitem_str resp (ustr ''Reservations'') = Inr (PList (r0 # rs))"
    and "getitem_str r0 (ustr ''Instances'') = Inr (PList (i0 # is))"
  shows "instance_type_of resp = getitem_str i0 (ustr ''InstanceType'')"
  using assms by (simp add: instance_type_of_def getitem_first_def)

lemma instance_type_no_record:
  assumes "getitem_str resp (ustr ''Reservations'') = Inr (PList [])
           \<or> (\<exists>r0 rs. getitem_str resp (ustr ''Reservations'') = Inr (PList (r0 # rs))
                \<and> getitem_str r0 (ustr ''Instances'') = Inr (PList []))"
  shows "instance_type_of resp = Inl (IndexError (ustr ''list index out of range''))"
  using assms by (auto simp: instance_type_of_def getitem_first_def)

text \<open>
  Claim C7. The resolver makes exactly one inventory lookup; when the lookup answers, the
  \<^verbatim>\<open>instance_type\<close> of a successful summary is the \<^verbatim>\<open>InstanceType\<close> of the first
  instance of the first reservation, whatever the other reservations and instances are; and
  an answer with no reservation, or with no instance in the first reservation, gives the
  failure summary.
\<close>

theorem descriptor_fetch:
  assumes d: "describe_instances w [iid] = Inr resp"
  shows "filter is_describe (snd (get_ec2_cpu_utilization w iid)) = [DescribeInstances [iid]]
    \<and> (\<forall>r0 rs i0 is v.
          getitem_str resp (ustr ''Reservations'') = Inr (PList (r0 # rs))
          \<and> getitem_str r0 (ustr ''Instances'') = Inr (PList (i0 # is))
          \<and> fst (try_body w iid) = Inr v
          \<longrightarrow> getitem_str v (ustr ''instance_type'') = getitem_str i0 (ustr ''InstanceType''))
    \<and> (getitem_str resp (ustr ''Reservations'') = Inr (PList [])
         \<or> (\<exists>r0 rs. getitem_str resp (ustr ''Reservations'') = Inr (PList (r0 # rs))
              \<and> getitem_str r0 (ustr ''Instances'') = Inr (PList []))
        \<longrightarrow> fst (get_ec2_cpu_utilization w iid) =
              PDict [(ustr ''instance_id'', iid),
                     (ustr ''error'', PStr (ustr ''list index out of range'')),
                     (ustr ''message'',
                        PStr (ustr ''Failed to retrieve data for '' @ py_str iid
                              @ ustr ''. Check instance ID or permissions.''))])"
proof (intro conjI allI impI)
  show "filter is_describe (snd (get_ec2_cpu_utilization w iid)) = [DescribeInstances [iid]]"
    by (rule describe_once)
next
  fix r0 rs i0 "is" v
  assume a: "getitem_str resp (ustr ''Reservations'') = Inr (PList (r0 # rs))
          \<and> getitem_str r0 (ustr ''Instances'') = Inr (PList (i0 # is))
          \<and> fst (try_body w iid) = Inr v"
  then have t: "instance_type_of resp = getitem_str i0 (ustr ''InstanceType'')"
    by (simp add: instance_type_first_record)
  from a show "getitem_str v (ustr ''instance_type'') = getitem_str i0 (ustr ''InstanceType'')"
    by (auto simp: try_body_def d t Let_def success_summary_def getitem_str_def
             split: sum.splits)
next
  assume "getitem_str resp (ustr ''Reservations'') = Inr (PList [])
         \<or> (\<exists>r0 rs. getitem_str resp (ustr ''Reservations'') = Inr (PList (r0 # rs))
              \<and> getitem_str r0 (ustr ''Instances'') = Inr (PList []))"
  then have "instance_type_of resp = Inl (IndexError (ustr ''list index out of range''))"
    by (rule instance_type_no_record)
  then show "fst (get_ec2_cpu_utilization w iid) =
              PDict [(ustr ''instance_id'', iid),
                     (ustr ''error'', PStr (ustr ''list index out of range'')),
                     (ustr ''message'',
                        PStr (ustr ''Failed to retrieve data for '' @ py_str iid
                              @ ustr ''. Check instance ID or permissions.''))]"
    by (simp add: get_ec2_cpu_utilization_def try_body_def d failure_summary_def)
qed

theorem descriptor_fetch_witness:
  "filter is_describe (snd (get_ec2_cpu_utilization (scenario_env (PList [])) (PStr (ustr ''i-000''))))
     = [DescribeInstances [PStr (ustr ''i-000'')]]
   \<and> fst (get_ec2_cpu_utilization (scenario_env (PList [])) (PStr (ustr ''i-000''))) =
       PDict [(ustr ''instance_id'', PStr (ustr ''i-000'')),
              (ustr ''error'', PStr (ustr ''list index out of range'')),
              (ustr ''message'',
                 PStr (ustr ''Failed to retrieve data for i-000. Check instance ID or permissions.''))]
   \<and> getitem_str (fst (get_ec2_cpu_utilization (scenario_env (PList [])) (PStr (ustr ''i-123''))))
         (ustr ''instance_type'') = Inr (PStr (ustr ''t3.micro''))"
proof -
  let ?w = "scenario_env (PList [])"
  have d: "describe_instances ?w [PStr (ustr ''i-000'')]
             = Inr (PDict [(ustr ''Reservations'', PList [])])"
    by (simp add: scenario_defs ustr_def)
  have r: "getitem_str (PDict [(ustr ''Reservations'', PList [])]) (ustr ''Reservations'')
             = Inr (PList [])"
    by (simp add: getitem_str_def)
  have d': "describe_instances ?w [PStr (ustr ''i-123'')] = Inr (inventory_response (ustr ''t3.micro''))"
    by (simp add: scenario_defs)
  have first: "getitem_str (inventory_response (ustr ''t3.micro'')) (ustr ''Reservations'')
                 = Inr (PList [PDict [(ustr ''Instances'',
                                   PList [PDict [(ustr ''InstanceType'', PStr (ustr ''t3.micro''))]])]])
               \<and> getitem_str (PDict [(ustr ''Instances'',
                                   PList [PDict [(ustr ''InstanceType'', PStr (ustr ''t3.micro''))]])])
                     (ustr ''Instances'')
                 = Inr (PList [PDict [(ustr ''InstanceType'', PStr (ustr ''t3.micro''))]])
               \<and> fst (try_body ?w (PStr (ustr ''i-123'')))
                 = Inr (success_summary (PStr (ustr ''i-123'')) (PStr (ustr ''t3.micro'')) (Finite 0))"
    by (simp add: resolver_defs scenario_defs)
  have t: "getitem_str (PDict [(ustr ''InstanceType'', PStr (ustr ''t3.micro''))]) (ustr ''InstanceType'')
             = Inr (PStr (ustr ''t3.micro''))"
    by (simp add: getitem_str_def)
  from descriptor_fetch [OF d'] first t
  have "getitem_str (success_summary (PStr (ustr ''i-123'')) (PStr (ustr ''t3.micro'')) (Finite 0))
          (ustr ''instance_type'') = Inr (PStr (ustr ''t3.micro''))"
    by metis
  moreover have "fst (get_ec2_cpu_utilization ?w (PStr (ustr ''i-123'')))
          = success_summary (PStr (ustr ''i-123'')) (PStr (ustr ''t3.micro'')) (Finite 0)"
    using first by (simp add: resolver_result)
  ultimately show ?thesis
    using descriptor_fetch [OF d] r by (simp add: py_str_def ustr_def)
qed


subsection \<open>Encoding and decoding the summary\<close>

lemma surrogate_type_summary:
  "fst (get_ec2_cpu_utilization (stub_env [55357, 56832]) (PStr (ustr ''i-123''))) =
     PDict [(ustr ''instance_id'', PStr (ustr ''i-123'')),
            (ustr ''instance_type'', PStr [55357, 56832]),
            (ustr ''average_cpu_utilization_24h'', PFloat (Finite 0)),
            (ustr ''message'',
               PStr (ustr ''Successfully retrieved data for i-123. Average CPU: 0.0%. Current Type: ''
                     @ [55357, 56832]))]"
  by (simp add: resolver_defs stub_env_def inventory_response_def py_round2_0 float_repr_0
                py_str_def ustr_def)

lemma surrogate_type_decoded:
  "json_loads (json_dumps
     (PDict [(ustr ''instance_id'', PStr (ustr ''i-123'')),
            (ustr ''instance_type'', PStr [55357, 56832]),
            (ustr ''average_cpu_utilization_24h'', PFloat (Finite 0)),
            (ustr ''message'',
               PStr (ustr ''Successfully retrieved data for i-123. Average CPU: 0.0%. Current Type: ''
                     @ [55357, 56832]))]))
   = Inr (PDict [(ustr ''instance_id'', PStr (ustr ''i-123'')),
            (ustr ''instance_type'', PStr [128512]),
            (ustr ''average_cpu_utilization_24h'', PFloat (Finite 0)),
            (ustr ''message'',
               PStr (ustr ''Successfully retrieved data for i-123. Average CPU: 0.0%. Current Type: ''
                     @ [128512]))])"
  by (simp add: encode_defs decode_defs float_repr_0 ustr_def match_number_def match_fraction_def
                match_exponent_def number_value_def is_digit_def nat_of_digits_def)

text \<open>
  Claim C8, as stated, fails. An inventory that reports as instance type the two code points
  \<open>U+D83D U+DE00\<close> (a high and a low surrogate, which a Python \<^verbatim>\<open>str\<close> can hold) gives a
  success summary that \<^verbatim>\<open>json.dumps\<close> writes as \<^verbatim>\<open>"\ud83d\ude00"\<close>, and
  \<^verbatim>\<open>json.loads\<close> reads the two escapes back as the single code point \<open>U+1F600\<close>.
\<close>

theorem round_trip_fails_on_surrogates:
  "json_loads (json_dumps (fst (get_ec2_cpu_utilization (stub_env [55357, 56832]) (PStr (ustr ''i-123'')))))
     \<noteq> Inr (fst (get_ec2_cpu_utilization (stub_env [55357, 56832]) (PStr (ustr ''i-123''))))"
  using surrogate_type_decoded by (simp add: surrogate_type_summary)

text \<open>
  Claim C8, amended. When no string of the summary holds a high surrogate immediately
  followed by a low surrogate and no float of it is NaN, which Python does not hold equal
  to itself (\<open>json_value\<close>; the other conditions hold of every Python value: code points
  below \<open>0x110000\<close>, a decimal expansion that ends for a finite float, each dictionary
  key once), decoding the encoded summary gives the summary back, field for field. The summary
  is such a value whenever the instance id, the answers of the two collaborators and the
  text of their exceptions are made of Unicode text and finite floats
  (\<open>json_value_resolver_summary\<close>).
\<close>

theorem summary_round_trip:
  assumes "json_value (fst (get_ec2_cpu_utilization w iid))"
  shows "json_loads (json_dumps (fst (get_ec2_cpu_utilization w iid)))
           = Inr (fst (get_ec2_cpu_utilization w iid))"
  using assms by (rule json_round_trip)

theorem summary_round_trip_witness:
  "json_loads (json_dumps (fst (get_ec2_cpu_utilization
                                 (scenario_env (PList [datapoint 10, datapoint 20, datapoint 30]))
                                 (PStr (ustr ''i-123'')))))
     = Inr (fst (get_ec2_cpu_utilization
                   (scenario_env (PList [datapoint 10, datapoint 20, datapoint 30]))
                   (PStr (ustr ''i-123''))))"
proof -
  let ?w = "scenario_env (PList [datapoint 10, datapoint 20, datapoint 30])"
  let ?iid = "PStr (ustr ''i-123'')"
  have 1: "wf_json ?iid" by simp
  have 2: "case describe_instances ?w [?iid] of
             Inl e \<Rightarrow> unicode_text (exn_str e) | Inr r \<Rightarrow> wf_json r"
    by (simp add: scenario_env_def inventory_response_def)
  have 3: "case get_metric_statistics ?w (metric_query (now ?w) ?iid) of
             Inl e \<Rightarrow> unicode_text (exn_str e) | Inr r \<Rightarrow> wf_json r"
    by (simp add: scenario_env_def metric_query_def datapoint_def decimal_whole)
  have "json_value (fst (get_ec2_cpu_utilization ?w ?iid))"
    by (rule json_value_resolver_summary [OF 1 2 3])
  then show ?thesis by (rule summary_round_trip)
qed


section \<open>Properties of the handler\<close>

lemma resolver_effects_nonempty: "snd (get_ec2_cpu_utilization w iid) \<noteq> []"
  by (auto simp: get_ec2_cpu_utilization_def try_body_def Let_def split: sum.splits)

lemma handler_dispatch:
  assumes ag: "getitem_str event (ustr ''actionGroup'') = Inr action"
    and ap: "getitem_str event (ustr ''apiPath'') = Inr (PStr api_route)"
    and rb: "request_body_of event = Inr (PStr body)"
    and js: "json_loads body = Inr (PDict params)"
  shows "lambda_handler w event =
           (case getitem_str event (ustr ''httpMethod'') of
              Inl e \<Rightarrow> Inl e
            | Inr http_method \<Rightarrow>
                Inr (envelope action (PStr api_route) http_method
                       (PDict [(ustr ''application/json'',
                           PDict [(ustr ''body'',
                              PStr (json_dumps (fst (get_ec2_cpu_utilization w (instance_id_of params)))))])])),
            snd (get_ec2_cpu_utilization w (instance_id_of params)))"
  by (simp add: lambda_handler_def ag ap rb py_json_loads_def js dict_get_def instance_id_of_def
           split: option.splits prod.splits sum.splits)

lemma getitem_str_not_explicit: "getitem_str obj k \<noteq> Inl (Exception m)"
  by (cases obj) (auto simp: getitem_str_def not_subscriptable_def split: option.splits)

lemma request_body_of_not_explicit: "request_body_of event \<noteq> Inl (Exception m)"
  by (auto simp: request_body_of_def getitem_str_not_explicit split: sum.splits)

lemma py_json_loads_not_explicit: "py_json_loads v \<noteq> Inl (Exception m)"
  by (cases v) (auto simp: py_json_loads_def dest: json_loads_error)

lemma dict_get_not_explicit: "dict_get obj k d \<noteq> Inl (Exception m)"
  by (cases obj) (auto simp: dict_get_def split: option.splits)

lemma explicit_raise_is_route_check:
  assumes "fst (lambda_handler w event) = Inl (Exception m)"
  shows "\<exists>p. getitem_str event (ustr ''apiPath'') = Inr p \<and> p \<noteq> PStr api_route
             \<and> m = ustr ''Unsupported API path: '' @ py_str p"
  using assms getitem_str_not_explicit request_body_of_not_explicit py_json_loads_not_explicit
        dict_get_not_explicit
  by (auto simp: lambda_handler_def split: sum.splits if_splits prod.splits)

text \<open>
  Claim C5. For an event with an action group and an API path: a path other than
  \<^verbatim>\<open>/get_ec2_cpu_utilization\<close> makes the handler raise the exception naming the path, with
  no call of the resolver and no envelope; with that path and a request body that decodes to
  an object, the effects of the handler are those of the resolver on the extracted instance
  id, and there is at least one.
\<close>

theorem routing:
  assumes ag: "getitem_str event (ustr ''actionGroup'') = Inr action"
    and ap: "getitem_str event (ustr ''apiPath'') = Inr api_path"
  shows "(api_path \<noteq> PStr api_route \<longrightarrow>
            lambda_handler w event =
              (Inl (Exception (ustr ''Unsupported API path: '' @ py_str api_path)), []))
       \<and> (api_path = PStr api_route \<longrightarrow>
            (\<forall>body params.
               request_body_of event = Inr (PStr body) \<and> json_loads body = Inr (PDict params)
               \<longrightarrow> snd (lambda_handler w event)
                     = snd (get_ec2_cpu_utilization w (instance_id_of params))
                   \<and> snd (lambda_handler w event) \<noteq> []))"
proof (intro conjI impI allI)
  assume "api_path \<noteq> PStr api_route"
  then show "lambda_handler w event =
              (Inl (Exception (ustr ''Unsupported API path: '' @ py_str api_path)), [])"
    by (simp add: lambda_handler_def ag ap)
next
  fix body params
  assume p: "api_path = PStr api_route"
    and b: "request_body_of event = Inr (PStr body) \<and> json_loads body = Inr (PDict params)"
  from handler_dispatch [of event action body params w] ag ap p b
  show "snd (lambda_handler w event) = snd (get_ec2_cpu_utilization w (instance_id_of params))"
    by simp
  then show "snd (lambda_handler w event) \<noteq> []"
    by (simp add: resolver_effects_nonempty)
qed

theorem routing_witness:
  "lambda_handler (scenario_env (PList [])) (scenario_event (ustr ''/other'') (ustr ''{}''))
     = (Inl (Exception (ustr ''Unsupported API path: /other'')), [])
   \<and> snd (lambda_handler (scenario_env (PList [])) (scenario_event api_route (ustr ''{}'')))
     = snd (get_ec2_cpu_utilization (scenario_env (PList [])) PNone)"
proof -
  let ?w = "scenario_env (PList [])"
  have ag: "getitem_str (scenario_event p b) (ustr ''actionGroup'') = Inr (PStr (ustr ''cost''))"
    and ap: "getitem_str (scenario_event p b) (ustr ''apiPath'') = Inr (PStr p)"
    and rb: "request_body_of (scenario_event p b) = Inr (PStr b)" for p b
    by (simp_all add: scenario_event_def getitem_str_def request_body_of_def)
  have js: "json_loads (ustr ''{}'') = Inr (PDict [])"
    by (simp add: json_loads_defs ustr_def)
  have ne: "PStr (ustr ''/other'') \<noteq> PStr api_route"
    by (simp add: api_route_def)
  from routing [OF ag [of "ustr ''/other''" "ustr ''{}''"] ap [of "ustr ''/other''" "ustr ''{}''"],
                where w = ?w] ne
  have 1: "lambda_handler ?w (scenario_event (ustr ''/other'') (ustr ''{}''))
     = (Inl (Exception (ustr ''Unsupported API path: /other'')), [])"
    by (simp add: py_str_def ustr_def)
  from routing [OF ag [of api_route "ustr ''{}''"] ap [of api_route "ustr ''{}''"], where w = ?w] rb js
  have 2: "snd (lambda_handler ?w (scenario_event api_route (ustr ''{}'')))
     = snd (get_ec2_cpu_utilization ?w PNone)"
    by (simp add: instance_id_of_def)
  from 1 2 show ?thesis by simp
qed



text \<open>
  Claim C9. A decoded request body without \<^verbatim>\<open>instance_id\<close> is not rejected: the handler
  calls the resolver with \<^verbatim>\<open>None\<close> and wraps its summary; when the inventory collaborator
  refuses that identifier, the summary is the failure shape with a null \<^verbatim>\<open>instance_id\<close>.
\<close>

theorem missing_instance_id_dispatched:
  assumes ag: "getitem_str event (ustr ''actionGroup'') = Inr action"
    and ap: "getitem_str event (ustr ''apiPath'') = Inr (PStr api_route)"
    and hm: "getitem_str event (ustr ''httpMethod'') = Inr http_method"
    and rb: "request_body_of event = Inr (PStr body)"
    and js: "json_loads body = Inr (PDict params)"
    and missing: "map_of params (ustr ''instance_id'') = None"
  shows "lambda_handler w event =
           (Inr (envelope action (PStr api_route) http_method
                   (PDict [(ustr ''application/json'',
                      PDict [(ustr ''body'', PStr (json_dumps (fst (get_ec2_cpu_utilization w PNone))))])])),
            snd (get_ec2_cpu_utilization w PNone))
       \<and> (\<forall>e. describe_instances w [PNone] = Inl e \<longrightarrow>
            fst (get_ec2_cpu_utilization w PNone) =
              PDict [(ustr ''instance_id'', PNone),
                     (ustr ''error'', PStr (exn_str e)),
                     (ustr ''message'',
                        PStr (ustr ''Failed to retrieve data for None. Check instance ID or permissions.''))])"
proof (intro conjI allI impI)
  have "instance_id_of params = PNone"
    by (simp add: instance_id_of_def missing)
  with handler_dispatch [OF ag ap rb js, of w]
  show "lambda_handler w event =
           (Inr (envelope action (PStr api_route) http_method
                   (PDict [(ustr ''application/json'',
                      PDict [(ustr ''body'', PStr (json_dumps (fst (get_ec2_cpu_utilization w PNone))))])])),
            snd (get_ec2_cpu_utilization w PNone))"
    by (simp add: hm)
next
  fix e assume "describe_instances w [PNone] = Inl e"
  then show "fst (get_ec2_cpu_utilization w PNone) =
              PDict [(ustr ''instance_id'', PNone),
                     (ustr ''error'', PStr (exn_str e)),
                     (ustr ''message'',
                        PStr (ustr ''Failed to retrieve data for None. Check instance ID or permissions.''))]"
    by (simp add: get_ec2_cpu_utilization_def try_body_def failure_summary_def py_str_def ustr_def)
qed

theorem missing_instance_id_dispatched_witness:
  "lambda_handler (scenario_env (PList [])) (scenario_event api_route (ustr ''{}'')) =
     (Inr (envelope (PStr (ustr ''cost'')) (PStr api_route) (PStr (ustr ''POST''))
             (PDict [(ustr ''application/json'',
                PDict [(ustr ''body'',
                  PStr (json_dumps (fst (get_ec2_cpu_utilization (scenario_env (PList [])) PNone))))])])),
      snd (get_ec2_cpu_utilization (scenario_env (PList [])) PNone))
   \<and> fst (get_ec2_cpu_utilization (scenario_env (PList [])) PNone) =
       PDict [(ustr ''instance_id'', PNone),
              (ustr ''error'', PStr (ustr ''InvalidInstanceID.NotFound'')),
              (ustr ''message'',
                 PStr (ustr ''Failed to retrieve data for None. Check instance ID or permissions.''))]"
proof -
  have m: "map_of [] (ustr ''instance_id'') = (None :: pyval option)" by simp
  have d: "describe_instances (scenario_env (PList [])) [PNone]
             = Inl (ServiceError (ustr ''InvalidInstanceID.NotFound''))"
    by (simp add: scenario_defs)
  from missing_instance_id_dispatched [OF scenario_event_fields(1) scenario_event_fields(2)
          scenario_event_fields(3) scenario_event_fields(4) loads_empty_object m,
          where w = "scenario_env (PList [])"] d
  show ?thesis by simp
qed

text \<open>
  Claim C10. An event without \<^verbatim>\<open>actionGroup\<close>, \<^verbatim>\<open>apiPath\<close> or \<^verbatim>\<open>httpMethod\<close>,
  without the nested request body, or with a body that \<^verbatim>\<open>json.loads\<close> rejects, makes the
  handler raise: it returns no envelope. The only exception the handler raises by itself
  (an \<^verbatim>\<open>Exception\<close>) is the one for an API path other than the supported one.
\<close>

theorem malformed_envelope_faults:
  "(isl (getitem_str event (ustr ''actionGroup''))
      \<or> isl (getitem_str event (ustr ''apiPath''))
      \<or> isl (getitem_str event (ustr ''httpMethod''))
      \<or> isl (request_body_of event)
      \<or> (\<exists>body. request_body_of event = Inr (PStr body) \<and> isl (json_loads body))
     \<longrightarrow> isl (fst (lambda_handler w event)))
   \<and> (\<forall>m. fst (lambda_handler w event) = Inl (Exception m)
          \<longrightarrow> (\<exists>p. getitem_str event (ustr ''apiPath'') = Inr p \<and> p \<noteq> PStr api_route
                   \<and> m = ustr ''Unsupported API path: '' @ py_str p))"
proof (intro conjI impI allI)
  assume "isl (getitem_str event (ustr ''actionGroup''))
      \<or> isl (getitem_str event (ustr ''apiPath''))
      \<or> isl (getitem_str event (ustr ''httpMethod''))
      \<or> isl (request_body_of event)
      \<or> (\<exists>body. request_body_of event = Inr (PStr body) \<and> isl (json_loads body))"
  then show "isl (fst (lambda_handler w event))"
    by (auto simp: lambda_handler_def py_json_loads_def isl_def split: sum.splits prod.splits)
next
  fix m
  assume "fst (lambda_handler w event) = Inl (Exception m)"
  then show "\<exists>p. getitem_str event (ustr ''apiPath'') = Inr p \<and> p \<noteq> PStr api_route
                \<and> m = ustr ''Unsupported API path: '' @ py_str p"
    by (rule explicit_raise_is_route_check)
qed

theorem malformed_envelope_faults_witness:
  "isl (fst (lambda_handler (scenario_env (PList [])) (PDict [])))
   \<and> isl (fst (lambda_handler (scenario_env (PList [])) (scenario_event api_route (ustr ''{''))))
   \<and> (\<exists>p. getitem_str (scenario_event (ustr ''/other'') (ustr ''{}'')) (ustr ''apiPath'') = Inr p
          \<and> p \<noteq> PStr api_route
          \<and> ustr ''Unsupported API path: /other'' = ustr ''Unsupported API path: '' @ py_str p)"
proof -
  let ?w = "scenario_env (PList [])"
  have 1: "isl (getitem_str (PDict []) (ustr ''actionGroup''))"
    by (simp add: getitem_str_def)
  have 2: "isl (json_loads (ustr ''{''))"
    by (simp add: json_loads_defs ustr_def)
  have 3: "\<exists>body. request_body_of (scenario_event api_route (ustr ''{'')) = Inr (PStr body)
             \<and> isl (json_loads body)"
    using 2 scenario_event_fields(4) by blast
  have 4: "fst (lambda_handler ?w (scenario_event (ustr ''/other'') (ustr ''{}'')))
             = Inl (Exception (ustr ''Unsupported API path: /other''))"
    by (simp add: lambda_handler_def scenario_event_def getitem_str_def api_route_def py_str_def
                  ustr_def)
  from malformed_envelope_faults [where event = "PDict []" and w = ?w] 1
  have a: "isl (fst (lambda_handler ?w (PDict [])))" by blast
  from malformed_envelope_faults [where event = "scenario_event api_route (ustr ''{'')" and w = ?w] 3
  have b: "isl (fst (lambda_handler ?w (scenario_event api_route (ustr ''{''))))" by blast
  from malformed_envelope_faults [where event = "scenario_event (ustr ''/other'') (ustr ''{}'')"
                                    and w = ?w] 4
  have c: "\<exists>p. getitem_str (scenario_event (ustr ''/other'') (ustr ''{}'')) (ustr ''apiPath'') = Inr p
          \<and> p \<noteq> PStr api_route
          \<and> ustr ''Unsupported API path: /other'' = ustr ''Unsupported API path: '' @ py_str p"
    by blast
  from a b c show ?thesis by blast
qed

end
